theory Spec2Isabelle
  imports Main "HOL-Library.Word"
begin

unbundle bit_operations_syntax

section \<open>Data model of \<open>mtproto/connection_tcp.cpp\<close>\<close>

text \<open>
  Bytes are 8-bit words. The source reads them both as \<open>char\<close> (signed on the
  platforms Telegram Desktop is built for, read here with \<open>sint\<close> / \<open>scast\<close>)
  and as \<open>uchar\<close> (\<open>ucast\<close>). \<open>mtpPrime\<close> is \<open>int32\<close>, \<open>mtpBuffer\<close> a
  vector of them. \<open>reinterpret_cast\<close> between bytes and 32-bit words is little endian,
  the byte order of those platforms.
\<close>

type_synonym byte = "8 word"
type_synonym uint32 = "32 word"
type_synonym mtpPrime = "32 word"
type_synonym mtpBuffer = "mtpPrime list"
type_synonym MTPint128 = "128 word"

text \<open>\<open>const mtpPrime *p = reinterpret_cast<const mtpPrime*>(bytes)\<close>: one word per four bytes.\<close>

definition prime_of_bytes :: "byte \<Rightarrow> byte \<Rightarrow> byte \<Rightarrow> byte \<Rightarrow> mtpPrime" where
  "prime_of_bytes a b c d =
     ucast a OR push_bit 8 (ucast b) OR push_bit 16 (ucast c) OR push_bit 24 (ucast d)"

fun primes_of_bytes :: "byte list \<Rightarrow> mtpPrime list" where
  "primes_of_bytes (a # b # c # d # rest) = prime_of_bytes a b c d # primes_of_bytes rest"
| "primes_of_bytes rest = []"

text \<open>\<open>char *data = reinterpret_cast<char*>(&buffer[0])\<close>: four bytes per word.\<close>

definition bytes_of_prime :: "mtpPrime \<Rightarrow> byte list" where
  "bytes_of_prime w = [ucast w, ucast (drop_bit 8 w), ucast (drop_bit 16 w), ucast (drop_bit 24 w)]"

definition bytes_of_primes :: "mtpPrime list \<Rightarrow> byte list" where
  "bytes_of_primes ws = concat (map bytes_of_prime ws)"

datatype Status = WaitingTcp | UsingTcp | FinishedWork

text \<open>\<open>QAbstractSocket::SocketState\<close>, what \<open>sock.state()\<close> returns.\<close>

datatype SocketState =
  UnconnectedState | HostLookupState | ConnectingState | ConnectedState
  | BoundState | ListeningState | ClosingState

text \<open>
  Modelled from the spec: \<open>CTRState\<close> is declared outside this file; the code here only
  assigns its \<open>ivec\<close> field and hands the whole struct to \<open>aesCtrEncrypt\<close>. It holds the
  running initialization vector / counter of one direction; the key is 32 bytes and the
  initialization vector 16 bytes.
\<close>

record CTRState =
  ivec :: "byte list"
  num :: uint32
  ecount :: "byte list"

definition KeySize :: nat where
  "KeySize = 32"

definition IvecSize :: nat where
  "IvecSize = 16"

text \<open>
  What the file uses and does not define: the constants \<open>MTPShortBufferSize\<close> (in words),
  \<open>MTPPacketSizeMax\<close> (in bytes) and \<open>kErrorCodeOther\<close>, the cipher \<open>aesCtrEncrypt\<close>
  (data, key and counter state in, data and counter state out), \<open>openssl::Sha256\<close>, and the
  probe pair \<open>preparePQFake\<close> / \<open>readPQFakeReply\<close> (\<open>None\<close> when it throws, otherwise the
  nonce of the parsed \<open>resPQ\<close>). They are parameters of the model.
\<close>

record env =
  MTPShortBufferSize :: nat
  MTPPacketSizeMax :: uint32
  kErrorCodeOther :: mtpPrime
  aesCtrEncrypt :: "byte list \<Rightarrow> byte list \<Rightarrow> CTRState \<Rightarrow> byte list \<times> CTRState"
  Sha256 :: "byte list \<Rightarrow> byte list"
  preparePQFake :: "MTPint128 \<Rightarrow> mtpBuffer"
  readPQFakeReply :: "mtpBuffer \<Rightarrow> MTPint128 option"

text \<open>
  What a member function does to the outside: the signals it emits and the calls it makes
  on the socket, in order.
\<close>

datatype effect =
  EmitError mtpPrime | EmitReceivedData | EmitReceivedSome | EmitConnected | EmitDisconnected
  | SockWrite "byte list" | SockConnectToHost | SockDisconnectFromHost | SockClose
  | OutOfBounds

text \<open>
  The members of \<open>AbstractTCPConnection\<close> and \<open>TCPConnection\<close>. The single-shot
  \<open>tcpTimeoutTimer\<close> is \<open>Some interval\<close> while it is running. \<open>currentPos\<close> is the
  byte offset into the buffer being filled: \<open>shortBuffer\<close> while \<open>readingToShort\<close>,
  \<open>longBuffer\<close> otherwise (every assignment of the source keeps the two in step).
  A buffer is its bytes by offset; \<open>longBuffer\<close> also has its size in words.
\<close>

record connection =
  status :: Status
  tcpNonce :: MTPint128
  tcpTimeout :: int
  tcpTimeoutTimer :: "int option"
  pingTime :: int
  receivedQueue :: "mtpBuffer list"
  protocolSecret :: "byte list"
  protocolDcId :: "16 word"
  sendKey :: "byte list"
  sendState :: CTRState
  receiveKey :: "byte list"
  receiveState :: CTRState
  packetNum :: uint32
  packetRead :: uint32
  packetLeft :: uint32
  readingToShort :: bool
  currentPos :: nat
  shortBuffer :: "nat \<Rightarrow> byte"
  longBuffer :: "nat \<Rightarrow> byte"
  longBufferSize :: nat

definition kMinReceiveTimeout :: int where
  "kMinReceiveTimeout = 2000"

definition kMaxReceiveTimeout :: int where
  "kMaxReceiveTimeout = 8000"

section \<open>Packet size header\<close>

text \<open>\<open>tcpPacketSize\<close>: the total frame length in bytes that a header declares.\<close>

definition tcpPacketSize :: "byte list \<Rightarrow> uint32" where
  "tcpPacketSize packet =
     (let result = (if 0 < sint (packet ! 0) then scast (packet ! 0) else 0) :: uint32 in
      if result = 0x7f then
        push_bit 2
          (push_bit 8 (push_bit 8 (ucast (packet ! 3)) OR ucast (packet ! 2)) OR ucast (packet ! 1)
            :: uint32) + 4
      else push_bit 2 result + 1)"

text \<open>
  The first lines of \<open>handleResponse\<close> after the bounds check: the declared payload size
  in words and the payload length in bytes, for a packet of \<open>n\<close> bytes.
\<close>

definition responseSize :: "byte list \<Rightarrow> uint32 \<Rightarrow> mtpPrime \<times> mtpPrime" where
  "responseSize packet n =
     (let size0 = scast (packet ! 0) :: mtpPrime; len0 = n - 1 in
      if size0 = 0x7f then
        (push_bit 8 (push_bit 8 (ucast (packet ! 3)) OR ucast (packet ! 2)) OR ucast (packet ! 1),
         len0 - 3)
      else (size0, len0))"

text \<open>
  \<open>handleResponse(packet, length)\<close>, with \<open>packet\<close> the \<open>length\<close> bytes the pointer
  refers to. Both failures return the one-word buffer \<open>-500\<close>.
\<close>

definition handleResponse :: "env \<Rightarrow> byte list \<Rightarrow> mtpBuffer" where
  "handleResponse e packet =
     (let n = (of_nat (length packet) :: uint32) in
      if n < 5 \<or> MTPPacketSizeMax e < n then [- 500]
      else
        (let (size, len) = responseSize packet n in
         if size * 4 \<noteq> len then [- 500]
         else
           (let packetdata = primes_of_bytes (drop (unat (n - len)) packet) in
            if size = 1 then [packetdata ! 0]
            else take (unat size) packetdata)))"

section \<open>Connection state machine\<close>

text \<open>\<open>TCPConnection::socketPacket\<close>; \<open>now\<close> is what \<open>getms()\<close> returns.\<close>

definition socketPacket :: "env \<Rightarrow> int \<Rightarrow> byte list \<Rightarrow> connection \<Rightarrow> connection \<times> effect list" where
  "socketPacket e now packet c =
     (if status c = FinishedWork then (c, [])
      else
        (let data = handleResponse e packet in
         if length data = 1 then (c, [EmitError (data ! 0)])
         else if status c = UsingTcp then
           (c\<lparr>receivedQueue := receivedQueue c @ [data]\<rparr>, [EmitReceivedData])
         else if status c = WaitingTcp then
           (let c1 = c\<lparr>tcpTimeoutTimer := None\<rparr> in
            case readPQFakeReply e data of
              None \<Rightarrow> (c1, [EmitError (kErrorCodeOther e)])
            | Some vnonce \<Rightarrow>
                if vnonce = tcpNonce c1 then
                  (c1\<lparr>status := UsingTcp, pingTime := now - pingTime c1\<rparr>, [EmitConnected])
                else (c1, []))
         else (c, [])))"

text \<open>\<open>TCPConnection::onTcpTimeoutTimer\<close>; \<open>st\<close> is what \<open>sock.state()\<close> returns.\<close>

definition onTcpTimeoutTimer :: "SocketState \<Rightarrow> connection \<Rightarrow> connection \<times> effect list" where
  "onTcpTimeoutTimer st c =
     (if status c = WaitingTcp then
        (let t1 = (if tcpTimeout c < kMaxReceiveTimeout then tcpTimeout c * 2 else tcpTimeout c);
             c1 = c\<lparr>tcpTimeout := - t1\<rparr>
         in if st = ConnectedState \<or> st = ConnectingState \<or> st = HostLookupState then
              (c1, [SockDisconnectFromHost])
            else if st \<noteq> ClosingState then (c1, [SockConnectToHost])
            else (c1, []))
      else (c, []))"

text \<open>\<open>TCPConnection::onSocketDisconnected\<close>.\<close>

definition onSocketDisconnected :: "connection \<Rightarrow> connection \<times> effect list" where
  "onSocketDisconnected c =
     (let c1 = (if tcpTimeout c < 0 then c\<lparr>tcpTimeout := - tcpTimeout c\<rparr> else c) in
      if tcpTimeout c < 0 \<and> status c1 = WaitingTcp then (c1, [SockConnectToHost])
      else if status c1 = WaitingTcp \<or> status c1 = UsingTcp then (c1, [EmitDisconnected])
      else (c1, []))"

text \<open>\<open>TCPConnection::disconnectFromServer\<close>.\<close>

definition disconnectFromServer :: "connection \<Rightarrow> connection \<times> effect list" where
  "disconnectFromServer c =
     (if status c = FinishedWork then (c, [])
      else (c\<lparr>status := FinishedWork\<rparr>, [SockClose]))"

section \<open>Obfuscation handshake and sending\<close>

text \<open>
  The loop condition of the nonce generation in \<open>writeConnectionStart\<close>: \<open>*zero\<close> is
  the first byte, \<open>*first\<close> and \<open>*second\<close> the first two 32-bit words of the buffer.
\<close>

definition reservedNonce :: "byte list \<Rightarrow> bool" where
  "reservedNonce nonce =
     (let zero = nonce ! 0;
          first = prime_of_bytes (nonce ! 0) (nonce ! 1) (nonce ! 2) (nonce ! 3);
          second = prime_of_bytes (nonce ! 4) (nonce ! 5) (nonce ! 6) (nonce ! 7);
          reserved01 = 0x000000EF;
          reserved11 = 0x44414548;
          reserved12 = 0x54534F50;
          reserved13 = 0x20544547;
          reserved14 = 0x20544547;
          reserved15 = 0xEEEEEEEE;
          reserved21 = 0x00000000
      in (ucast zero :: uint32) = reserved01
         \<or> first = reserved11
         \<or> first = reserved12
         \<or> first = reserved13
         \<or> first = reserved14
         \<or> first = reserved15
         \<or> second = reserved21)"

text \<open>
  \<open>do { bytes::set_random(nonce); } while (...)\<close>. The random source is a parameter:
  \<open>set_random i k\<close> is byte \<open>k\<close> of the \<open>i\<close>-th draw of 64 bytes. The loop need not
  end, so the result is an option.
\<close>

partial_function (option) generateNonce :: "(nat \<Rightarrow> nat \<Rightarrow> byte) \<Rightarrow> nat \<Rightarrow> byte list option" where
  "generateNonce set_random i =
     (let nonce = map (set_random i) [0..<64] in
      if reservedNonce nonce then generateNonce set_random (Suc i) else Some nonce)"

text \<open>\<open>bytes::copy(destination, source)\<close>, which expects the source to fit.\<close>

definition bytes_copy :: "byte list \<Rightarrow> byte list \<Rightarrow> byte list" where
  "bytes_copy destination source = source @ drop (length source) destination"

text \<open>The lambda \<open>prepareKey(key, from)\<close>; it returns the new contents of \<open>key\<close>.\<close>

definition prepareKey :: "env \<Rightarrow> byte list \<Rightarrow> byte list \<Rightarrow> byte list \<Rightarrow> byte list" where
  "prepareKey e secret key from =
     (if length secret = 16 then bytes_copy key (Sha256 e (from @ secret))
      else if secret = [] then bytes_copy key from
      else replicate (length key) 0)"

text \<open>\<open>writeConnectionStart\<close> from the accepted nonce on.\<close>

definition writeConnectionStartWith :: "env \<Rightarrow> byte list \<Rightarrow> connection \<Rightarrow> connection \<times> effect list" where
  "writeConnectionStartWith e nonce c =
     (let sendKey1 = prepareKey e (protocolSecret c) (sendKey c) (take KeySize (drop 8 nonce));
          sendState1 = (sendState c)
            \<lparr>ivec := bytes_copy (ivec (sendState c)) (take IvecSize (drop (8 + KeySize) nonce))\<rparr>;
          reversed = rev (take 48 (drop 8 nonce));
          receiveKey1 = prepareKey e (protocolSecret c) (receiveKey c) (take KeySize reversed);
          receiveState1 = (receiveState c)
            \<lparr>ivec := bytes_copy (ivec (receiveState c)) (take IvecSize (drop KeySize reversed))\<rparr>;
          nonce1 = nonce[56 := 0xEF, 57 := 0xEF, 58 := 0xEF, 59 := 0xEF];
          nonce2 = nonce1[60 := ucast (protocolDcId c), 61 := ucast (drop_bit 8 (protocolDcId c))];
          (encrypted, sendState2) = aesCtrEncrypt e nonce2 sendKey1 sendState1
      in (c\<lparr>sendKey := sendKey1, sendState := sendState2,
             receiveKey := receiveKey1, receiveState := receiveState1\<rparr>,
          [SockWrite (take 56 nonce2), SockWrite (drop 56 encrypted)]))"

definition writeConnectionStart ::
    "env \<Rightarrow> (nat \<Rightarrow> nat \<Rightarrow> byte) \<Rightarrow> connection \<Rightarrow> (connection \<times> effect list) option" where
  "writeConnectionStart e set_random c =
     (case generateNonce set_random 0 of
        None \<Rightarrow> None
      | Some nonce \<Rightarrow> Some (writeConnectionStartWith e nonce c))"

text \<open>
  The bytes \<open>tcpSend\<close> hands to the cipher and then to the socket: the header written
  in place into the first two words of the buffer, and what follows it.
\<close>

definition tcpFrame :: "mtpBuffer \<Rightarrow> byte list" where
  "tcpFrame buffer =
     (let size = (of_nat (length buffer) - 3 :: uint32);
          len = size * 4;
          data = bytes_of_primes buffer
      in if size < 0x7f then
           take (unat (len + 1)) (drop 7 (data[7 := ucast size]))
         else
           take (unat (len + 4))
             (drop 4 (data[4 := 0x7f,
                           5 := ucast (size AND 0xFF),
                           6 := ucast (drop_bit 8 size AND 0xFF),
                           7 := ucast (drop_bit 16 size AND 0xFF)])))"

text \<open>
  \<open>tcpSend\<close>. The encryption is in place in the caller's buffer, which no caller reads
  again; the model returns the connection and the effects.
\<close>

definition tcpSend ::
    "env \<Rightarrow> (nat \<Rightarrow> nat \<Rightarrow> byte) \<Rightarrow> mtpBuffer \<Rightarrow> connection \<Rightarrow> (connection \<times> effect list) option" where
  "tcpSend e set_random buffer c =
     (case (if packetNum c = 0 then writeConnectionStart e set_random c else Some (c, [])) of
        None \<Rightarrow> None
      | Some (c1, started) \<Rightarrow>
          (let c2 = c1\<lparr>packetNum := packetNum c1 + 1\<rparr>;
               (encrypted, sendState1) = aesCtrEncrypt e (tcpFrame buffer) (sendKey c2) (sendState c2)
           in Some (c2\<lparr>sendState := sendState1\<rparr>, started @ [SockWrite encrypted])))"

text \<open>\<open>TCPConnection::sendData\<close>.\<close>

definition sendData ::
    "env \<Rightarrow> (nat \<Rightarrow> nat \<Rightarrow> byte) \<Rightarrow> mtpBuffer \<Rightarrow> connection \<Rightarrow> (connection \<times> effect list) option" where
  "sendData e set_random buffer c =
     (if status c = FinishedWork then Some (c, [])
      else if length buffer < 3 then Some (c, [EmitError (kErrorCodeOther e)])
      else tcpSend e set_random buffer c)"

text \<open>\<open>TCPConnection::onSocketConnected\<close>; \<open>now\<close> is what \<open>getms()\<close> returns.\<close>

definition onSocketConnected ::
    "env \<Rightarrow> (nat \<Rightarrow> nat \<Rightarrow> byte) \<Rightarrow> int \<Rightarrow> connection \<Rightarrow> (connection \<times> effect list) option" where
  "onSocketConnected e set_random now c =
     (if status c = WaitingTcp then
        (let buffer = preparePQFake e (tcpNonce c);
             t = (if tcpTimeout c < 0 then - tcpTimeout c else tcpTimeout c);
             c1 = c\<lparr>tcpTimeout := t, tcpTimeoutTimer := Some t, pingTime := now\<rparr>
         in sendData e set_random buffer c1)
      else Some (c, []))"

section \<open>Receive buffer and \<open>socketRead\<close>\<close>

text \<open>
  \<open>memcpy\<close> into a buffer and the bytes a pointer and a length refer to. The cipher
  works in place, so a read of \<open>n\<close> bytes stores exactly \<open>n\<close> bytes.
\<close>

definition write_bytes :: "(nat \<Rightarrow> byte) \<Rightarrow> nat \<Rightarrow> nat \<Rightarrow> byte list \<Rightarrow> (nat \<Rightarrow> byte)" where
  "write_bytes mem pos n bs = (\<lambda>i. if pos \<le> i \<and> i < pos + n then bs ! (i - pos) else mem i)"

definition read_bytes :: "(nat \<Rightarrow> byte) \<Rightarrow> nat \<Rightarrow> nat \<Rightarrow> byte list" where
  "read_bytes mem pos n = map mem [pos ..< pos + n]"

text \<open>The buffer \<open>currentPos\<close> points into.\<close>

definition currentBuffer :: "connection \<Rightarrow> (nat \<Rightarrow> byte)" where
  "currentBuffer c = (if readingToShort c then shortBuffer c else longBuffer c)"

text \<open>\<open>longBuffer.resize(k)\<close>: the old words stay, new words are zero.\<close>

definition longBuffer_resize :: "nat \<Rightarrow> connection \<Rightarrow> connection" where
  "longBuffer_resize k c =
     c\<lparr>longBuffer := (\<lambda>i. if i < 4 * min (longBufferSize c) k then longBuffer c i else 0),
       longBufferSize := k\<rparr>"

text \<open>
  \<open>currentPos = (char*)shortBuffer; readingToShort = true; longBuffer.clear();\<close>
\<close>

definition backToShort :: "connection \<Rightarrow> connection" where
  "backToShort c =
     c\<lparr>currentPos := 0, readingToShort := True, longBuffer := (\<lambda>i. 0), longBufferSize := 0\<rparr>"

text \<open>The first statement of the loop body of \<open>socketRead\<close>.\<close>

definition toRead :: "env \<Rightarrow> connection \<Rightarrow> uint32" where
  "toRead e c =
     (if packetLeft c \<noteq> 0 then packetLeft c
      else if readingToShort c then of_nat (MTPShortBufferSize e * 4) - packetRead c
      else 4)"

text \<open>
  The buffer switch before the read: from the short buffer to the long one when the read
  could pass the end of the short buffer, and the growth of the long buffer.
\<close>

definition prepareBuffer :: "env \<Rightarrow> connection \<Rightarrow> connection" where
  "prepareBuffer e c =
     (let n = toRead e c in
      if readingToShort c then
        (if MTPShortBufferSize e * 4 < currentPos c + unat n then
           (let c1 = longBuffer_resize (unat (drop_bit 2 (packetRead c + n) + 1)) c;
                c2 = c1\<lparr>longBuffer :=
                       write_bytes (longBuffer c1) 0 (unat (packetRead c))
                         (read_bytes (shortBuffer c) 0 (unat (packetRead c)))\<rparr>
            in c2\<lparr>currentPos := unat (packetRead c), readingToShort := False\<rparr>)
         else c)
      else
        (if longBufferSize c * 4 < unat (packetRead c + n) then
           (longBuffer_resize (unat (drop_bit 2 (packetRead c + n) + 1)) c)
             \<lparr>currentPos := unat (packetRead c)\<rparr>
         else c))"

text \<open>
  The inner \<open>while (packetRead >= 4)\<close> loop. \<open>Inl\<close> is the \<open>return\<close> after
  \<open>emit error\<close>; \<open>Inr\<close> carries the flag \<open>move\<close>.
\<close>

function scanPackets ::
    "env \<Rightarrow> int \<Rightarrow> connection \<Rightarrow> (connection \<times> effect list) + (connection \<times> bool \<times> effect list)" where
  "scanPackets e now c =
     (if packetRead c < 4 then Inr (c, False, [])
      else
        (let start = currentPos c - unat (packetRead c);
             packetSize = tcpPacketSize (read_bytes (currentBuffer c) start 4)
         in if packetSize < 5 \<or> MTPPacketSizeMax e < packetSize then
              Inl (c, [EmitError (kErrorCodeOther e)])
            else if packetSize \<le> packetRead c then
              (let delivered = socketPacket e now (read_bytes (currentBuffer c) start (unat packetSize)) c;
                   c1 = (fst delivered)
                     \<lparr>packetRead := packetRead (fst delivered) - packetSize, packetLeft := 0\<rparr>
               in case scanPackets e now c1 of
                    Inl (c2, effs) \<Rightarrow> Inl (c2, snd delivered @ effs)
                  | Inr (c2, move, effs) \<Rightarrow> Inr (c2, True, snd delivered @ effs))
            else
              Inr (c\<lparr>packetLeft := packetSize - packetRead c\<rparr>, False, [EmitReceivedSome])))"
  by pat_completeness auto

lemma socketPacket_packetRead [simp]:
  "packetRead (fst (socketPacket e now packet c)) = packetRead c"
  by (simp add: socketPacket_def Let_def split: option.split)

lemma scan_decreases:
  fixes packetSize :: uint32
  assumes "\<not> packetSize < 5" and "packetSize \<le> r"
  shows "unat (r - packetSize) < unat r"
proof -
  have "unat (r - packetSize) = unat r - unat packetSize"
    using assms(2) by (simp add: unat_sub)
  moreover have "5 \<le> unat packetSize"
    using assms(1) by (simp add: word_less_nat_alt)
  moreover have "unat packetSize \<le> unat r"
    using assms(2) by (simp add: word_le_nat_alt)
  ultimately show ?thesis
    by simp
qed

termination scanPackets
  by (relation "measure (\<lambda>(e, now, c). unat (packetRead c))") (simp_all add: scan_decreases)

declare scanPackets.simps [simp del]

text \<open>
  \<open>sock.read(currentPos, toRead)\<close> delivered \<open>bytes\<close>: they are decrypted in place
  where \<open>currentPos\<close> points, and \<open>packetRead\<close> and \<open>currentPos\<close> advance.
\<close>

definition storeBytes :: "env \<Rightarrow> byte list \<Rightarrow> connection \<Rightarrow> connection" where
  "storeBytes e bytes c =
     (let n = length bytes;
          decrypted = aesCtrEncrypt e bytes (receiveKey c) (receiveState c);
          c1 = (if readingToShort c
                then c\<lparr>shortBuffer := write_bytes (shortBuffer c) (currentPos c) n (fst decrypted)\<rparr>
                else c\<lparr>longBuffer := write_bytes (longBuffer c) (currentPos c) n (fst decrypted)\<rparr>)
      in c1\<lparr>receiveState := snd decrypted,
            packetRead := packetRead c1 + of_nat n,
            currentPos := currentPos c1 + n\<rparr>)"

text \<open>
  One pass of the \<open>do\<close> body after \<open>sock.read\<close> returned the bytes \<open>bytes\<close> (at
  least one): store them, then complete the pending packet or scan for packets.
  \<open>Inl\<close> is a \<open>return\<close> out of \<open>socketRead\<close>. A read that would pass the end of
  the buffer it writes to is undefined in the source; the model stops with \<open>OutOfBounds\<close>.
\<close>

definition readStep ::
    "env \<Rightarrow> int \<Rightarrow> byte list \<Rightarrow> connection \<Rightarrow> (connection \<times> effect list) + (connection \<times> effect list)" where
  "readStep e now bytes c =
     (let n = length bytes;
          room = (if readingToShort c then MTPShortBufferSize e * 4 else longBufferSize c * 4)
      in if room < currentPos c + n then Inl (c, [OutOfBounds])
         else
           (let c2 = storeBytes e bytes c
            in if packetLeft c2 \<noteq> 0 then
                 (let c3 = c2\<lparr>packetLeft := packetLeft c2 - of_nat n\<rparr> in
                  if packetLeft c3 = 0 then
                    (let delivered = socketPacket e now
                           (read_bytes (currentBuffer c3) (currentPos c3 - unat (packetRead c3))
                              (unat (packetRead c3))) c3
                     in Inr ((backToShort (fst delivered))\<lparr>packetRead := 0, packetLeft := 0\<rparr>,
                             snd delivered))
                  else Inr (c3, [EmitReceivedSome]))
               else
                 (case scanPackets e now c2 of
                    Inl stopped \<Rightarrow> Inl stopped
                  | Inr (c3, move, effs) \<Rightarrow>
                      if move then
                        (if packetRead c3 = 0 then Inr (backToShort c3, effs)
                         else if \<not> readingToShort c3
                                 \<and> unat (packetRead c3) < MTPShortBufferSize e * 4 then
                           Inr ((backToShort c3)
                                  \<lparr>shortBuffer :=
                                     write_bytes (shortBuffer c3) 0 (unat (packetRead c3))
                                       (read_bytes (longBuffer c3)
                                          (currentPos c3 - unat (packetRead c3)) (unat (packetRead c3))),
                                   currentPos := unat (packetRead c3)\<rparr>, effs)
                         else Inr (c3, effs))
                      else Inr (c3, effs))))"

text \<open>
  The \<open>do ... while (sock.bytesAvailable())\<close> loop, with \<open>avail\<close> the bytes the socket
  holds: \<open>sock.read(currentPos, toRead)\<close> takes up to \<open>toRead\<close> of them. The socket
  stays connected during the call.
\<close>

function socketReadLoop :: "env \<Rightarrow> int \<Rightarrow> byte list \<Rightarrow> connection \<Rightarrow> connection \<times> effect list" where
  "socketReadLoop e now avail c =
     (let c1 = prepareBuffer e c;
          bytes = take (unat (toRead e c)) avail
      in if bytes = [] then (c1, [])
         else
           (case readStep e now bytes c1 of
              Inl stopped \<Rightarrow> stopped
            | Inr (c2, effs) \<Rightarrow>
                if drop (length bytes) avail = [] then (c2, effs)
                else
                  (let continued = socketReadLoop e now (drop (length bytes) avail) c2
                   in (fst continued, effs @ snd continued))))"
  by pat_completeness auto

termination socketReadLoop
  by (relation "measure (\<lambda>(e, now, avail, c). length avail)") auto

declare socketReadLoop.simps [simp del]

text \<open>What the socket offers when \<open>readyRead\<close> fires: bytes, or a failing \<open>read\<close>.\<close>

datatype sockInput = Readable "byte list" | ReadFails

text \<open>\<open>AbstractTCPConnection::socketRead\<close>; \<open>st\<close> is what \<open>sock.state()\<close> returns.\<close>

definition socketRead ::
    "env \<Rightarrow> int \<Rightarrow> SocketState \<Rightarrow> sockInput \<Rightarrow> connection \<Rightarrow> connection \<times> effect list" where
  "socketRead e now st input c =
     (if st \<noteq> ConnectedState then (c, [EmitError (kErrorCodeOther e)])
      else
        (case input of
           ReadFails \<Rightarrow> (prepareBuffer e c, [EmitError (kErrorCodeOther e)])
         | Readable avail \<Rightarrow> socketReadLoop e now avail c))"

text \<open>Successive \<open>readyRead\<close> signals, one per chunk that arrived.\<close>

fun socketReads ::
    "env \<Rightarrow> int \<Rightarrow> byte list list \<Rightarrow> connection \<Rightarrow> connection \<times> effect list" where
  "socketReads e now [] c = (c, [])"
| "socketReads e now (chunk # chunks) c =
     (let first = socketRead e now ConnectedState (Readable chunk) c;
          others = socketReads e now chunks (fst first)
      in (fst others, snd first @ snd others))"

text \<open>
  \<open>TCPConnection::TCPConnection\<close>: the constructor sets \<open>status\<close>, \<open>tcpNonce\<close> and
  \<open>_tcpTimeout\<close>; the other members start with the values \<open>socketRead\<close> restores
  after a packet (empty receive buffer in the short buffer), no packet sent, no secret.
\<close>

definition newTCPConnection :: "MTPint128 \<Rightarrow> connection" where
  "newTCPConnection nonce =
     \<lparr>status = WaitingTcp, tcpNonce = nonce, tcpTimeout = kMinReceiveTimeout,
      tcpTimeoutTimer = None, pingTime = 0, receivedQueue = [],
      protocolSecret = [], protocolDcId = 0,
      sendKey = replicate KeySize 0,
      sendState = \<lparr>ivec = replicate IvecSize 0, num = 0, ecount = replicate 16 0\<rparr>,
      receiveKey = replicate KeySize 0,
      receiveState = \<lparr>ivec = replicate IvecSize 0, num = 0, ecount = replicate 16 0\<rparr>,
      packetNum = 0, packetRead = 0, packetLeft = 0, readingToShort = True, currentPos = 0,
      shortBuffer = (\<lambda>i. 0), longBuffer = (\<lambda>i. 0), longBufferSize = 0\<rparr>"

text \<open>
  The events that drive a connection, as the Qt event loop delivers them: the socket
  connects or disconnects, the single-shot timer fires (only while it runs, and it stops
  by firing), a packet arrives, the owner sends or closes.
\<close>

inductive reachable :: "env \<Rightarrow> connection \<Rightarrow> bool" for e :: env where
  created: "reachable e (newTCPConnection nonce)"
| connected:
    "reachable e c \<Longrightarrow> onSocketConnected e set_random now c = Some (c', effs) \<Longrightarrow> reachable e c'"
| timeout:
    "reachable e c \<Longrightarrow> tcpTimeoutTimer c = Some t \<Longrightarrow>
     reachable e (fst (onTcpTimeoutTimer st (c\<lparr>tcpTimeoutTimer := None\<rparr>)))"
| disconnected: "reachable e c \<Longrightarrow> reachable e (fst (onSocketDisconnected c))"
| packet: "reachable e c \<Longrightarrow> reachable e (fst (socketPacket e now packet c))"
| sent: "reachable e c \<Longrightarrow> sendData e set_random buffer c = Some (c', effs) \<Longrightarrow> reachable e c'"
| closed: "reachable e c \<Longrightarrow> reachable e (fst (disconnectFromServer c))"

section \<open>The specification's reading of a frame\<close>

text \<open>
  The header as the specification words it: one byte for a word count below \<open>0x7f\<close>,
  otherwise the marker \<open>0x7f\<close> and the word count in three bytes, low byte first.
\<close>

definition encode_header :: "nat \<Rightarrow> byte list" where
  "encode_header word_count =
     (if word_count < 0x7f then [of_nat word_count]
      else [0x7f, of_nat word_count, of_nat (word_count div 256), of_nat (word_count div 65536)])"

definition header_length :: "byte list \<Rightarrow> nat" where
  "header_length packet = (if packet ! 0 = 0x7f then 4 else 1)"

text \<open>
  The payload word count a frame declares. A first byte above \<open>0x7f\<close> is no header of
  the format; read as the signed \<open>char\<close> it is in the source, it declares a negative
  count, which no payload matches.
\<close>

definition declared_word_count :: "byte list \<Rightarrow> int" where
  "declared_word_count packet =
     (if packet ! 0 = 0x7f then
        uint (packet ! 1) + 256 * uint (packet ! 2) + 65536 * uint (packet ! 3)
      else sint (packet ! 0))"

text \<open>
  A malformed frame: total length outside \<open>[5, MTPPacketSizeMax]\<close>, or a declared
  word count that is not the number of payload bytes present.
\<close>

definition malformed_frame :: "env \<Rightarrow> byte list \<Rightarrow> bool" where
  "malformed_frame e packet =
     (length packet < 5 \<or> unat (MTPPacketSizeMax e) < length packet
      \<or> declared_word_count packet * 4 \<noteq> int (length packet) - int (header_length packet))"

section \<open>A concrete environment for the examples\<close>

text \<open>
  Stand-ins for the parts outside the file, used where a statement is evaluated on a
  concrete input: a cipher that leaves the data as it is, a hash that returns 32 zero
  bytes, and a probe whose reply is at least four words, the first one the nonce.
\<close>

definition plain_env :: env where
  "plain_env =
     \<lparr>MTPShortBufferSize = 65535, MTPPacketSizeMax = 0x4000000, kErrorCodeOther = - 499,
      aesCtrEncrypt = (\<lambda>data key st. (data, st)),
      Sha256 = (\<lambda>data. replicate 32 0),
      preparePQFake = (\<lambda>nonce. [0, 0, ucast nonce, 0, 0]),
      readPQFakeReply = (\<lambda>data. if length data < 4 then None else Some (ucast (data ! 0)))\<rparr>"

text \<open>A connection waiting for the probe reply with the timer running, and an active one.\<close>

definition waiting :: connection where
  "waiting = (newTCPConnection 7)\<lparr>tcpTimeoutTimer := Some 2000, packetNum := 1\<rparr>"

definition active :: connection where
  "active = (newTCPConnection 7)\<lparr>status := UsingTcp, packetNum := 1\<rparr>"

text \<open>Two frames of two and three payload words.\<close>

definition frameA :: "byte list" where
  "frameA = [2, 1, 1, 1, 1, 2, 2, 2, 2]"

definition frameB :: "byte list" where
  "frameB = [3, 0x11, 0x11, 0x11, 0x11, 0x22, 0x22, 0x22, 0x22, 0, 0, 0, 0]"

text \<open>A probe reply with nonce 7 and one with nonce 8, four payload words each.\<close>

definition replyFrame :: "byte \<Rightarrow> byte list" where
  "replyFrame v = [4, v, 0, 0, 0, 0, 0, 0, 0, 0, 0, 0, 0, 0, 0, 0, 0]"

text \<open>
  Two random sources: one whose first draw starts with the byte \<open>0xEF\<close> and whose
  later draws count \<open>1, 2, 3, ...\<close>, and one whose draws carry \<open>0x44414548\<close> in the
  second 32-bit word.
\<close>

definition example_random :: "nat \<Rightarrow> nat \<Rightarrow> byte" where
  "example_random i k = (if i = 0 then 0xEF else of_nat (k + 1))"

definition head_random :: "nat \<Rightarrow> nat \<Rightarrow> byte" where
  "head_random i k =
     (if k = 4 then 0x48 else if k = 5 then 0x45 else if k = 6 then 0x41 else if k = 7 then 0x44
      else 1)"

text \<open>
  A new connection after the socket connected, and the same connection after the timer
  fired, the socket disconnected and connected again.
\<close>

definition connected_once :: connection where
  "connected_once = fst (the (onSocketConnected plain_env example_random 0 (newTCPConnection 7)))"

definition retried :: connection where
  "retried =
     fst (the (onSocketConnected plain_env example_random 0
       (fst (onSocketDisconnected
         (fst (onTcpTimeoutTimer ConnectedState (connected_once\<lparr>tcpTimeoutTimer := None\<rparr>)))))))"

text \<open>The invariant of the retry timeout: its magnitude, and its sign while the timer runs.\<close>

definition retry_ok :: "connection \<Rightarrow> bool" where
  "retry_ok c = ((\<bar>tcpTimeout c\<bar> = 2000 \<or> \<bar>tcpTimeout c\<bar> = 4000 \<or> \<bar>tcpTimeout c\<bar> = 8000)
      \<and> (tcpTimeoutTimer c = None \<or> 0 < tcpTimeout c))"

text \<open>
  A frame the active connection queues: well formed, and not the one-word error frame.
  \<open>scanned\<close> is the connection after the scan loop queued some payloads and left
  \<open>left\<close> bytes unconsumed.
\<close>

definition deliverable :: "env \<Rightarrow> byte list \<Rightarrow> bool" where
  "deliverable e f = (\<not> malformed_frame e f \<and> declared_word_count f \<noteq> 1)"

definition scanned :: "connection \<Rightarrow> mtpBuffer list \<Rightarrow> uint32 \<Rightarrow> connection" where
  "scanned c payloads left =
     c\<lparr>receivedQueue := receivedQueue c @ payloads, packetRead := left, packetLeft := 0\<rparr>"

section \<open>Bytes and words\<close>

lemma length_bytes_of_primes: "length (bytes_of_primes ws) = 4 * length ws"
  by (induction ws) (simp_all add: bytes_of_primes_def bytes_of_prime_def)

lemma bytes_of_primes_append: "bytes_of_primes (xs @ ys) = bytes_of_primes xs @ bytes_of_primes ys"
  by (simp add: bytes_of_primes_def)

lemma four_suc: "4 + 4 * j = Suc (Suc (Suc (Suc (4 * j))))"
  by simp

lemma drop_bytes_of_primes: "drop (4 * k) (bytes_of_primes ws) = bytes_of_primes (drop k ws)"
proof (induction ws arbitrary: k)
  case Nil then show ?case by (simp add: bytes_of_primes_def)
next
  case (Cons w ws)
  show ?case
  proof (cases k)
    case 0 then show ?thesis by simp
  next
    case (Suc j)
    have "drop (4 * Suc j) (bytes_of_primes (w # ws)) = drop (4 * j) (bytes_of_primes ws)"
      by (simp add: bytes_of_primes_def bytes_of_prime_def four_suc)
    then show ?thesis using Cons.IH [of j] Suc by simp
  qed
qed

lemma take_bytes_of_primes: "take (4 * k) (bytes_of_primes ws) = bytes_of_primes (take k ws)"
proof (induction ws arbitrary: k)
  case Nil then show ?case by (simp add: bytes_of_primes_def)
next
  case (Cons w ws)
  show ?case
  proof (cases k)
    case 0 then show ?thesis by (simp add: bytes_of_primes_def)
  next
    case (Suc j)
    have "take (4 * Suc j) (bytes_of_primes (w # ws)) = bytes_of_prime w @ take (4 * j) (bytes_of_primes ws)"
      by (simp add: bytes_of_primes_def bytes_of_prime_def four_suc)
    then show ?thesis using Cons.IH [of j] Suc by (simp add: bytes_of_primes_def)
  qed
qed

lemma prime_of_bytes_of_prime:
  "prime_of_bytes (ucast w) (ucast (drop_bit 8 w)) (ucast (drop_bit 16 w)) (ucast (drop_bit 24 w)) = w"
  unfolding prime_of_bytes_def
proof (rule bit_word_eqI)
  fix n assume "n < LENGTH(32)"
  then consider "n < 8" | "8 \<le> n" "n < 16" | "16 \<le> n" "n < 24" | "24 \<le> n" "n < 32"
    by force
  then show "bit (ucast (ucast w :: byte) OR push_bit 8 (ucast (ucast (drop_bit 8 w) :: byte))
       OR push_bit 16 (ucast (ucast (drop_bit 16 w) :: byte))
       OR push_bit 24 (ucast (ucast (drop_bit 24 w) :: byte)) :: 32 word) n = bit w n"
    by cases (auto simp add: bit_simps)
qed

lemma primes_of_bytes_of_primes: "primes_of_bytes (bytes_of_primes ws) = ws"
  by (induction ws) (simp_all add: bytes_of_primes_def bytes_of_prime_def prime_of_bytes_of_prime)

lemma word24_join:
  fixes s :: uint32
  assumes "s < 0x1000000"
  shows "push_bit 8 (push_bit 8 (ucast (ucast (drop_bit 16 s AND 0xFF) :: byte)) OR ucast (ucast (drop_bit 8 s AND 0xFF) :: byte))
          OR ucast (ucast (s AND 0xFF) :: byte) = s"
proof -
  have "take_bit 24 s = s"
    using less_mask_eq [of s 24] assms by (simp add: take_bit_eq_mask)
  have m: "(0xFF :: 32 word) = mask 8"
    by (simp add: mask_eq_decr_exp)
  from \<open>take_bit 24 s = s\<close> have hi: "bit s n \<Longrightarrow> n < 24" for n
    by (metis bit_take_bit_iff)
  show ?thesis
  proof (rule bit_word_eqI)
    fix n assume "n < LENGTH(32)"
    then consider "n < 8" | "8 \<le> n" "n < 16" | "16 \<le> n" "n < 24" | "24 \<le> n" "n < 32"
      by force
    then show "bit (push_bit 8 (push_bit 8 (ucast (ucast (drop_bit 16 s AND 0xFF) :: byte)) OR ucast (ucast (drop_bit 8 s AND 0xFF) :: byte))
          OR ucast (ucast (s AND 0xFF) :: byte) :: 32 word) n = bit s n"
      unfolding m using hi [of n] by cases (auto simp add: bit_simps)
  qed
qed



lemma size_word:
  assumes "wc < 2 ^ 24"
  shows "(of_nat (wc + 3) - 3 :: uint32) = of_nat wc"
    and "unat (of_nat wc :: uint32) = wc"
    and "(of_nat wc :: uint32) < 0x1000000"
    and "((of_nat wc :: uint32) < 0x7f) = (wc < 0x7f)"
    and "unat ((of_nat wc :: uint32) * 4 + 1) = 4 * wc + 1"
    and "unat ((of_nat wc :: uint32) * 4 + 4) = 4 * wc + 4"
    and "unat ((of_nat wc :: uint32) * 4) = 4 * wc"
proof -
  show "(of_nat (wc + 3) - 3 :: uint32) = of_nat wc" by simp
  show u: "unat (of_nat wc :: uint32) = wc"
    using assms by (simp add: unat_of_nat)
  show "(of_nat wc :: uint32) < 0x1000000"
    using assms u by (simp add: word_less_nat_alt)
  show "((of_nat wc :: uint32) < 0x7f) = (wc < 0x7f)"
    using u by (simp add: word_less_nat_alt)
  have "(of_nat wc :: uint32) * 4 + 1 = of_nat (4 * wc + 1)" by simp
  then show "unat ((of_nat wc :: uint32) * 4 + 1) = 4 * wc + 1"
    using assms by (intro of_nat_inverse) simp_all
  have "(of_nat wc :: uint32) * 4 + 4 = of_nat (4 * wc + 4)" by simp
  then show "unat ((of_nat wc :: uint32) * 4 + 4) = 4 * wc + 4"
    using assms by (intro of_nat_inverse) simp_all
  have "(of_nat wc :: uint32) * 4 = of_nat (4 * wc)" by simp
  then show "unat ((of_nat wc :: uint32) * 4) = 4 * wc"
    using assms by (intro of_nat_inverse) simp_all
qed

lemma header_bytes:
  "(ucast (of_nat wc :: uint32) :: byte) = of_nat wc"
  "(ucast ((of_nat wc :: uint32) AND 0xFF) :: byte) = of_nat wc"
  "(ucast (drop_bit 8 (of_nat wc :: uint32) AND 0xFF) :: byte) = of_nat (wc div 256)"
  "(ucast (drop_bit 16 (of_nat wc :: uint32) AND 0xFF) :: byte) = of_nat (wc div 65536)"
proof -
  have m: "(0xFF :: 32 word) = mask 8"
    by (simp add: mask_eq_decr_exp)
  have d: "wc div 256 = drop_bit 8 wc" "wc div 65536 = drop_bit 16 wc"
    by (simp_all add: drop_bit_eq_div)
  show "(ucast (of_nat wc :: uint32) :: byte) = of_nat wc"
    by (rule bit_word_eqI) (auto simp add: bit_simps)
  show "(ucast ((of_nat wc :: uint32) AND 0xFF) :: byte) = of_nat wc"
    unfolding m by (rule bit_word_eqI) (auto simp add: bit_simps)
  show "(ucast (drop_bit 8 (of_nat wc :: uint32) AND 0xFF) :: byte) = of_nat (wc div 256)"
    unfolding m d by (rule bit_word_eqI) (auto simp add: bit_simps)
  show "(ucast (drop_bit 16 (of_nat wc :: uint32) AND 0xFF) :: byte) = of_nat (wc div 65536)"
    unfolding m d by (rule bit_word_eqI) (auto simp add: bit_simps)
qed

lemma tcpFrame_eq:
  assumes "length buffer = wc + 3" and "wc < 2 ^ 24"
  shows "tcpFrame buffer = encode_header wc @ bytes_of_primes (take wc (drop 2 buffer))"
proof -
  let ?data = "bytes_of_primes buffer"
  have len: "length ?data = 4 * wc + 12"
    using assms by (simp add: length_bytes_of_primes)
  have d8: "drop 8 ?data = bytes_of_primes (drop 2 buffer)"
    using drop_bytes_of_primes [of 2 buffer] by simp
  have payload: "take (4 * wc) (drop 8 ?data) = bytes_of_primes (take wc (drop 2 buffer))"
    by (simp only: d8 take_bytes_of_primes)
  show ?thesis
  proof (cases "wc < 0x7f")
    case True
    have "drop 7 (?data[7 := h]) = h # drop 8 ?data" for h
      using len by (simp add: Cons_nth_drop_Suc [symmetric])
    then show ?thesis
      using True assms payload
      by (simp add: tcpFrame_def Let_def size_word encode_header_def header_bytes)
  next
    case False
    have "drop 4 (?data[4 := a, 5 := b, 6 := c, 7 := d]) = a # b # c # d # drop 8 ?data" for a b c d
      using len by (simp add: Cons_nth_drop_Suc [symmetric])
    moreover have "take (4 * wc + 4) (a # b # c # d # xs) = a # b # c # d # take (4 * wc) xs"
      for a b c d :: byte and xs
      by (simp add: take_Cons')
    ultimately show ?thesis
      using False assms payload
      by (simp add: tcpFrame_def Let_def size_word encode_header_def header_bytes)
  qed
qed

lemma sint_small:
  assumes "wc < 128"
  shows "sint (of_nat wc :: byte) = int wc"
proof -
  have "sint (of_nat wc :: byte) = signed_take_bit 7 (int wc)"
    by (simp add: signed_of_nat)
  also have "\<dots> = int wc"
    using assms by (intro signed_take_bit_int_eq_self) simp_all
  finally show ?thesis .
qed

lemma scast_small:
  assumes "wc < 128"
  shows "(scast (of_nat wc :: byte) :: uint32) = of_nat wc"
  by (metis assms of_int_of_nat_eq of_int_sint sint_small)

lemma tcpPacketSize_encode:
  assumes "wc < 2 ^ 24"
  shows "unat (tcpPacketSize (encode_header wc @ rest)) = length (encode_header wc) + 4 * wc"
proof (cases "wc < 0x7f")
  case True
  then have s: "sint (of_nat wc :: byte) = int wc" "(scast (of_nat wc :: byte) :: uint32) = of_nat wc"
    by (simp_all add: sint_small scast_small)
  have r: "(if 0 < int wc then (of_nat wc :: uint32) else 0) = of_nat wc"
    by simp
  have ne: "(of_nat wc :: uint32) \<noteq> 0x7f"
  proof
    assume "(of_nat wc :: uint32) = 0x7f"
    then have "unat (of_nat wc :: uint32) = 127" by simp
    with size_word(2) [OF assms] True show False by simp
  qed
  show ?thesis
    using True ne size_word(5) [OF assms]
    by (simp add: tcpPacketSize_def encode_header_def s r push_bit_eq_mult mult.commute)
next
  case False
  have "(0x7f :: byte) = of_nat 127" by simp
  then have s: "sint (0x7f :: byte) = 127" "(scast (0x7f :: byte) :: uint32) = 0x7f"
    using sint_small [of 127] scast_small [of 127] by simp_all
  have j: "push_bit 8 (push_bit 8 (ucast (of_nat (wc div 65536) :: byte)) OR ucast (of_nat (wc div 256) :: byte))
          OR ucast (of_nat wc :: byte) = (of_nat wc :: uint32)"
    using word24_join [of "of_nat wc"] size_word(3) [OF assms] by (simp add: header_bytes)
  have p: "(encode_header wc @ rest) ! 0 = 0x7f" "(encode_header wc @ rest) ! 1 = of_nat wc"
    "(encode_header wc @ rest) ! 2 = of_nat (wc div 256)"
    "(encode_header wc @ rest) ! 3 = of_nat (wc div 65536)"
    using False by (simp_all add: encode_header_def)
  have "tcpPacketSize (encode_header wc @ rest) = push_bit 2 (of_nat wc) + 4"
    unfolding tcpPacketSize_def Let_def p s j by simp
  then show ?thesis
    using False size_word(6) [OF assms]
    by (simp add: encode_header_def push_bit_eq_mult mult.commute)
qed

lemma responseSize_encode:
  assumes "wc < 2 ^ 24"
  shows "responseSize (encode_header wc @ rest) n = (of_nat wc, n - of_nat (length (encode_header wc)))"
proof (cases "wc < 0x7f")
  case True
  then have s: "(scast (of_nat wc :: byte) :: uint32) = of_nat wc"
    by (simp_all add: scast_small)
  have ne: "(of_nat wc :: uint32) \<noteq> 0x7f"
  proof
    assume "(of_nat wc :: uint32) = 0x7f"
    then have "unat (of_nat wc :: uint32) = 127" by simp
    with size_word(2) [OF assms] True show False by simp
  qed
  show ?thesis
    using True ne
    by (simp add: responseSize_def encode_header_def s)
next
  case False
  have "(0x7f :: byte) = of_nat 127" by simp
  then have s: "(scast (0x7f :: byte) :: uint32) = 0x7f"
    using scast_small [of 127] by simp_all
  have j: "push_bit 8 (push_bit 8 (ucast (of_nat (wc div 65536) :: byte)) OR ucast (of_nat (wc div 256) :: byte))
          OR ucast (of_nat wc :: byte) = (of_nat wc :: uint32)"
    using word24_join [of "of_nat wc"] size_word(3) [OF assms] by (simp add: header_bytes)
  have p: "(encode_header wc @ rest) ! 0 = 0x7f" "(encode_header wc @ rest) ! 1 = of_nat wc"
    "(encode_header wc @ rest) ! 2 = of_nat (wc div 256)"
    "(encode_header wc @ rest) ! 3 = of_nat (wc div 65536)"
    using False by (simp_all add: encode_header_def)
  have "responseSize (encode_header wc @ rest) n = (of_nat wc, n - 1 - 3)"
    unfolding responseSize_def Let_def p s j by simp
  then show ?thesis
    using False by (simp add: encode_header_def)
qed

section \<open>Decoding a frame\<close>

lemma length_primes_of_bytes: "length (primes_of_bytes bs) = length bs div 4"
  by (induction bs rule: primes_of_bytes.induct) simp_all

lemma scast_eq_7f: "((scast (b :: byte) :: uint32) = 0x7f) = (b = 0x7f)"
proof
  assume "(scast b :: uint32) = 0x7f"
  then have "(scast (scast b :: uint32) :: byte) = scast (0x7f :: uint32)"
    by simp
  moreover have "(scast (scast b :: uint32) :: byte) = b"
    by (rule scast_up_scast_id) (simp add: is_up)
  ultimately show "b = 0x7f"
    by simp
next
  assume "b = 0x7f"
  then show "(scast b :: uint32) = 0x7f"
    using scast_small [of 127] by simp
qed

lemma uint_scast: "uint (scast (b :: byte) :: uint32) = sint b mod 2 ^ 32"
  unfolding scast_eq uint_word_of_int by simp

lemma or_add_int:
  fixes x y :: int
  assumes "0 \<le> x" and "x < 2 ^ k"
  shows "push_bit k y OR x = push_bit k y + x"
proof -
  have "take_bit k x = x"
    using assms by (simp add: take_bit_int_eq_self)
  then have hx: "bit x n \<Longrightarrow> n < k" for n
    by (metis bit_take_bit_iff)
  have "\<not> bit (push_bit k y) n \<or> \<not> bit x n" for n
    using hx [of n] by (auto simp add: bit_simps)
  then show ?thesis
    by (rule disjunctive_add [symmetric])
qed

lemma uint_byte_up: "uint (ucast (b :: byte) :: uint32) = uint b"
  by (rule uint_up_ucast) (simp add: is_up)

lemma uint_byte_bounds: "0 \<le> uint (b :: byte)" "uint (b :: byte) < 256"
  using uint_bounded [of b] by simp_all

lemma uint_join24:
  "uint (push_bit 8 (push_bit 8 (ucast (b3 :: byte)) OR ucast (b2 :: byte)) OR ucast (b1 :: byte) :: uint32)
     = uint b1 + 256 * uint b2 + 65536 * uint b3"
proof -
  let ?t = "push_bit 8 (uint b3) OR uint b2"
  have t: "?t = 256 * uint b3 + uint b2"
    using or_add_int [of "uint b2" 8 "uint b3"] uint_byte_bounds [of b2]
    by (simp add: push_bit_eq_mult)
  have tb: "0 \<le> ?t" "?t < 65536"
    using uint_byte_bounds [of b2] uint_byte_bounds [of b3] unfolding t by simp_all
  have "uint (push_bit 8 (ucast b3) OR ucast b2 :: uint32) = take_bit 32 (push_bit 8 (uint b3)) OR uint b2"
    by (simp add: unsigned_or_eq unsigned_push_bit_eq uint_byte_up)
  also have "take_bit 32 (push_bit 8 (uint b3)) = push_bit 8 (uint b3)"
    using uint_byte_bounds [of b3] by (intro take_bit_int_eq_self) (simp_all add: push_bit_eq_mult)
  finally have inner: "uint (push_bit 8 (ucast b3) OR ucast b2 :: uint32) = ?t" .
  have "uint (push_bit 8 w OR ucast b1 :: uint32) = take_bit 32 (push_bit 8 (uint w)) OR uint b1"
    for w :: uint32
    by (simp add: unsigned_or_eq unsigned_push_bit_eq uint_byte_up)
  from this [of "push_bit 8 (ucast b3) OR ucast b2"]
  have "uint (push_bit 8 (push_bit 8 (ucast b3) OR ucast b2) OR ucast b1 :: uint32)
      = take_bit 32 (push_bit 8 ?t) OR uint b1"
    unfolding inner .
  also have "take_bit 32 (push_bit 8 ?t) = push_bit 8 ?t"
    using tb by (intro take_bit_int_eq_self) (simp_all add: push_bit_eq_mult)
  also have "push_bit 8 ?t OR uint b1 = push_bit 8 ?t + uint b1"
    using uint_byte_bounds [of b1] by (intro or_add_int) simp_all
  finally show ?thesis
    unfolding t by (simp add: push_bit_eq_mult)
qed

lemma uint_of_nat_len:
  assumes "k < 2 ^ 32"
  shows "uint (of_nat k :: uint32) = int k"
  using assms by (simp add: unsigned_of_nat take_bit_nat_eq_self)

lemma size_check_long:
  fixes s :: uint32
  assumes "uint s < 2 ^ 24" and "5 \<le> L" and "L < 2 ^ 32"
  shows "(s * 4 = of_nat L - 1 - 3) = (uint s * 4 = int L - 4)"
proof -
  have "(of_nat L - 1 - 3 :: uint32) = of_nat (L - 4)"
    using assms(2) by (simp add: of_nat_diff)
  then have r: "uint (of_nat L - 1 - 3 :: uint32) = int L - 4"
    using assms uint_of_nat_len [of "L - 4"] by simp
  have "uint (s * 4) = uint s * 4 mod 2 ^ 32"
    by (simp add: uint_word_ariths)
  also have "\<dots> = uint s * 4"
    using assms(1) by simp
  finally show ?thesis
    using r by (simp add: word_uint_eq_iff)
qed

lemma mod_neg_shift:
  fixes x m :: int
  assumes "- m \<le> x" and "x < 0"
  shows "x mod m = x + m"
proof -
  have "x mod m = (x + m) mod m"
    by simp
  also have "\<dots> = x + m"
    using assms by (intro mod_pos_pos_trivial) simp_all
  finally show ?thesis .
qed

lemma size_check_short:
  fixes b :: byte
  assumes "5 \<le> L" and "L < 2 ^ 31"
  shows "((scast b :: uint32) * 4 = of_nat L - 1) = (sint b * 4 = int L - 1)"
proof -
  have "(of_nat L - 1 :: uint32) = of_nat (L - 1)"
    using assms(1) by (simp add: of_nat_diff)
  then have r: "uint (of_nat L - 1 :: uint32) = int L - 1"
    using assms uint_of_nat_len [of "L - 1"] by simp
  have b: "- 128 \<le> sint b" "sint b < 128"
    using sint_ge [of b] sint_lt [of b] by simp_all
  have l: "uint ((scast b :: uint32) * 4) = (sint b mod 2 ^ 32) * 4 mod 2 ^ 32"
    by (simp add: uint_word_ariths uint_scast)
  show ?thesis
  proof (cases "0 \<le> sint b")
    case True
    then have "uint ((scast b :: uint32) * 4) = sint b * 4"
      using b l by simp
    then show ?thesis
      using r by (simp add: word_uint_eq_iff)
  next
    case False
    then have "sint b mod 2 ^ 32 = sint b + 2 ^ 32"
      using b by (intro mod_neg_shift) simp_all
    then have "uint ((scast b :: uint32) * 4) = (sint b + 2 ^ 32) * 4 mod 2 ^ 32"
      using l by simp
    also have "(sint b + 2 ^ 32) * 4 = sint b * 4 + 4 * (2 ^ 32 :: int)"
      by simp
    also have "(sint b * 4 + 4 * (2 ^ 32 :: int)) mod 2 ^ 32 = (sint b * 4) mod 2 ^ 32"
      by (rule mod_mult_self1)
    also have "\<dots> = sint b * 4 + 2 ^ 32"
      using b False by (intro mod_neg_shift) simp_all
    finally have "uint ((scast b :: uint32) * 4) \<noteq> int L - 1"
      using b assms by simp
    moreover have "sint b * 4 \<noteq> int L - 1"
      using False assms by simp
    ultimately show ?thesis
      using r by (simp add: word_uint_eq_iff)
  qed
qed

lemma singleton_nth: "length xs = 1 \<Longrightarrow> [xs ! 0] = xs"
  by (cases xs) simp_all

lemma payload_all:
  fixes size :: uint32
  assumes "length pd = unat size"
  shows "(if size = 1 then [pd ! 0] else take (unat size) pd) = pd"
  using assms by (auto simp add: singleton_nth)

lemma handleResponse_eq:
  assumes "length packet < 2 ^ 32" and "unat (MTPPacketSizeMax e) < 2 ^ 31"
  shows "handleResponse e packet =
    (if malformed_frame e packet then [- 500]
     else primes_of_bytes (drop (header_length packet) packet))"
proof -
  define L where "L = length packet"
  define pd where "pd = primes_of_bytes (drop (header_length packet) packet)"
  let ?n = "of_nat L :: uint32"
  have un: "unat ?n = L"
    using assms(1) by (simp add: L_def unat_of_nat)
  have lt5: "(?n < 5) = (L < 5)"
    using un by (simp add: word_less_nat_alt)
  have gt: "(MTPPacketSizeMax e < ?n) = (unat (MTPPacketSizeMax e) < L)"
    using un by (simp add: word_less_nat_alt)
  have lpd: "length pd = (L - header_length packet) div 4"
    by (simp add: pd_def length_primes_of_bytes L_def)
  show ?thesis
  proof (cases "L < 5 \<or> unat (MTPPacketSizeMax e) < L")
    case True
    then show ?thesis
      using lt5 gt by (auto simp add: handleResponse_def malformed_frame_def L_def [symmetric])
  next
    case False
    then have L5: "5 \<le> L" and L31: "L < 2 ^ 31" and L32: "L < 2 ^ 32"
      using assms(2) by simp_all
    have bounds: "\<not> (?n < 5 \<or> MTPPacketSizeMax e < ?n)"
      using False lt5 gt by simp
    have mal: "malformed_frame e packet =
        (declared_word_count packet * 4 \<noteq> int L - int (header_length packet))"
      using False by (simp add: malformed_frame_def L_def [symmetric])
    have "\<exists>s len. responseSize packet ?n = (s, len)
          \<and> unat (?n - len) = header_length packet
          \<and> (s * 4 = len) = (declared_word_count packet * 4 = int L - int (header_length packet))
          \<and> (s * 4 = len \<longrightarrow> length pd = unat s)"
    proof (cases "packet ! 0 = 0x7f")
      case long: True
      define s :: uint32 where
        "s = push_bit 8 (push_bit 8 (ucast (packet ! 3)) OR ucast (packet ! 2)) OR ucast (packet ! 1)"
      have rs: "responseSize packet ?n = (s, ?n - 1 - 3)"
        unfolding s_def using long by (simp add: responseSize_def Let_def scast_eq_7f)
      have us: "uint s = declared_word_count packet"
        unfolding s_def uint_join24 declared_word_count_def using long by simp
      have usb: "uint s < 2 ^ 24"
        using uint_byte_bounds [of "packet ! 1"] uint_byte_bounds [of "packet ! 2"]
          uint_byte_bounds [of "packet ! 3"]
        unfolding s_def uint_join24 by simp
      have hl: "header_length packet = 4"
        using long by (simp add: header_length_def)
      have chk: "(s * 4 = ?n - 1 - 3) = (declared_word_count packet * 4 = int L - int (header_length packet))"
        using size_check_long [OF usb L5 L32] us hl by simp
      have "length pd = unat s" if "s * 4 = ?n - 1 - 3"
        using that chk us L5 hl lpd by (simp add: unat_eq_nat_uint nat_eq_iff)
      moreover have "unat (?n - (?n - 1 - 3)) = header_length packet"
        using hl by simp
      ultimately show ?thesis
        using rs chk by blast
    next
      case short: False
      define s :: uint32 where "s = scast (packet ! 0)"
      have rs: "responseSize packet ?n = (s, ?n - 1)"
        unfolding s_def using short by (simp add: responseSize_def Let_def scast_eq_7f)
      have hl: "header_length packet = 1"
        using short by (simp add: header_length_def)
      have dw: "declared_word_count packet = sint (packet ! 0)"
        using short by (simp add: declared_word_count_def)
      have chk: "(s * 4 = ?n - 1) = (declared_word_count packet * 4 = int L - int (header_length packet))"
        unfolding s_def using size_check_short [OF L5 L31, of "packet ! 0"] dw hl by simp
      have "length pd = unat s" if "s * 4 = ?n - 1"
      proof -
        from that chk dw hl have eq: "sint (packet ! 0) * 4 = int L - 1"
          by simp
        then have pos: "0 \<le> sint (packet ! 0)"
          using L5 by simp
        have "uint s = sint (packet ! 0)"
          unfolding s_def using pos sint_lt [of "packet ! 0"] by (simp add: uint_scast)
        then show ?thesis
          using eq L5 hl lpd by (simp add: unat_eq_nat_uint nat_eq_iff)
      qed
      moreover have "unat (?n - (?n - 1)) = header_length packet"
        using hl by simp
      ultimately show ?thesis
        using rs chk by blast
    qed
    then obtain s len where rs: "responseSize packet ?n = (s, len)"
      and hn: "unat (?n - len) = header_length packet"
      and chk: "(s * 4 = len) = (declared_word_count packet * 4 = int L - int (header_length packet))"
      and len: "s * 4 = len \<longrightarrow> length pd = unat s"
      by blast
    have unfolded: "handleResponse e packet =
        (if s * 4 \<noteq> len then [- 500] else (if s = 1 then [pd ! 0] else take (unat s) pd))"
      using bounds rs hn
      by (simp add: handleResponse_def L_def [symmetric] Let_def pd_def)
    show ?thesis
    proof (cases "s * 4 = len")
      case True
      then have "(if s = 1 then [pd ! 0] else take (unat s) pd) = pd"
        using len by (intro payload_all) simp
      then show ?thesis
        using True chk mal unfolded by (simp add: pd_def)
    next
      case False
      then show ?thesis
        using chk mal unfolded by simp
    qed
  qed
qed

section \<open>Claims about the frame header\<close>

lemma header_join:
  assumes "wc < 2 ^ 24"
  shows "push_bit 8 (push_bit 8 (ucast (of_nat (wc div 65536) :: byte)) OR ucast (of_nat (wc div 256) :: byte))
          OR ucast (of_nat wc :: byte) = (of_nat wc :: uint32)"
  using word24_join [of "of_nat wc"] size_word(3) [OF assms] by (simp add: header_bytes)

lemma header_length_encode:
  assumes "wc < 2 ^ 24"
  shows "header_length (encode_header wc @ rest) = length (encode_header wc)"
proof (cases "wc < 0x7f")
  case True
  have "(of_nat wc :: byte) \<noteq> 0x7f"
  proof
    assume "(of_nat wc :: byte) = 0x7f"
    then have "sint (of_nat wc :: byte) = 127"
      by simp
    then show False
      using True sint_small [of wc] by simp
  qed
  then show ?thesis
    using True by (simp add: header_length_def encode_header_def)
next
  case False
  then show ?thesis
    by (simp add: header_length_def encode_header_def)
qed

lemma declared_word_count_encode:
  assumes "wc < 2 ^ 24"
  shows "declared_word_count (encode_header wc @ rest) = int wc"
proof (cases "wc < 0x7f")
  case True
  have "(of_nat wc :: byte) \<noteq> 0x7f"
  proof
    assume "(of_nat wc :: byte) = 0x7f"
    then have "sint (of_nat wc :: byte) = 127"
      by simp
    then show False
      using True sint_small [of wc] by simp
  qed
  then show ?thesis
    using True sint_small [of wc] by (simp add: declared_word_count_def encode_header_def)
next
  case False
  have "uint (of_nat wc :: byte) + 256 * uint (of_nat (wc div 256) :: byte)
        + 65536 * uint (of_nat (wc div 65536) :: byte)
      = uint (of_nat wc :: uint32)"
    unfolding uint_join24 [symmetric] header_join [OF assms] by (rule refl)
  also have "\<dots> = int wc"
    using assms by (intro uint_of_nat_len) simp
  finally show ?thesis
    using False by (simp add: declared_word_count_def encode_header_def)
qed

lemma take4_encode:
  "take 4 (encode_header wc @ rest) = encode_header wc @ take (4 - length (encode_header wc)) rest"
  by (simp add: encode_header_def)

lemma handleResponse_encode:
  assumes "wc < 2 ^ 24" and "1 \<le> wc" and "length payload = wc * 4"
    and "length (encode_header wc) + wc * 4 \<le> unat (MTPPacketSizeMax e)"
    and "unat (MTPPacketSizeMax e) < 2 ^ 31"
  shows "handleResponse e (encode_header wc @ payload) = primes_of_bytes payload"
proof -
  let ?f = "encode_header wc @ payload"
  have hl: "length (encode_header wc) = (if wc < 0x7f then 1 else 4)"
    by (simp add: encode_header_def)
  have len: "length ?f = length (encode_header wc) + wc * 4"
    using assms(3) by simp
  have "length ?f < 2 ^ 32"
    unfolding len using assms(4,5) by simp
  moreover have "\<not> malformed_frame e ?f"
    unfolding malformed_frame_def declared_word_count_encode [OF assms(1)]
      header_length_encode [OF assms(1)] len
    using assms(2,4) hl by simp
  ultimately have "handleResponse e ?f = primes_of_bytes (drop (header_length ?f) ?f)"
    using assms(5) by (simp add: handleResponse_eq)
  then show ?thesis
    by (simp add: header_length_encode [OF assms(1)])
qed

text \<open>
  C3. Header round trip: for every word count in \<open>[0, 0xFFFFFF)\<close> and whatever bytes
  follow the encoded header, \<open>tcpPacketSize\<close> reads from it (and from the first four
  bytes alone, which is what the scan loop of \<open>socketRead\<close> passes) the total frame
  length, header length plus four times the word count; the decoding at the head of
  \<open>handleResponse\<close> reads the same word count and takes the header length off the
  length; the header is one byte exactly when the word count is below \<open>0x7f\<close> and four
  bytes otherwise, the marker \<open>0x7f\<close> followed by the word count in three bytes, low
  byte first. A frame of at least one word that passes the size limit decodes to its
  payload of that many words, and the frame \<open>tcpSend\<close> writes for a buffer carrying
  that many payload words is the encoded header followed by the payload.
\<close>

theorem header_round_trip:
  assumes "word_count < 0xFFFFFF"
  shows "unat (tcpPacketSize (encode_header word_count @ rest))
        = length (encode_header word_count) + word_count * 4
    \<and> unat (tcpPacketSize (take 4 (encode_header word_count @ rest)))
        = length (encode_header word_count) + word_count * 4
    \<and> responseSize (encode_header word_count @ rest) n
        = (of_nat word_count, n - of_nat (length (encode_header word_count)))
    \<and> unat (of_nat word_count :: uint32) = word_count
    \<and> header_length (encode_header word_count @ rest) = length (encode_header word_count)
    \<and> declared_word_count (encode_header word_count @ rest) = int word_count
    \<and> (length (encode_header word_count) = 1) = (word_count < 0x7f)
    \<and> (length (encode_header word_count) = 4) = (\<not> word_count < 0x7f)
    \<and> (\<not> word_count < 0x7f \<longrightarrow>
         encode_header word_count ! 0 = 0x7f
         \<and> uint (encode_header word_count ! 1) + 256 * uint (encode_header word_count ! 2)
             + 65536 * uint (encode_header word_count ! 3) = int word_count)
    \<and> (\<forall>e payload. 1 \<le> word_count \<and> length payload = word_count * 4
           \<and> length (encode_header word_count) + word_count * 4 \<le> unat (MTPPacketSizeMax e)
           \<and> unat (MTPPacketSizeMax e) < 2 ^ 31 \<longrightarrow>
         handleResponse e (encode_header word_count @ payload) = primes_of_bytes payload
         \<and> length (handleResponse e (encode_header word_count @ payload)) = word_count)
    \<and> (\<forall>buffer. length buffer = word_count + 3 \<longrightarrow>
         tcpFrame buffer
           = encode_header word_count @ bytes_of_primes (take word_count (drop 2 buffer))
         \<and> length (tcpFrame buffer) = length (encode_header word_count) + word_count * 4
         \<and> unat (tcpPacketSize (tcpFrame buffer)) = length (tcpFrame buffer)
         \<and> unat (tcpPacketSize (take 4 (tcpFrame buffer))) = length (tcpFrame buffer)
         \<and> responseSize (tcpFrame buffer) (of_nat (length (tcpFrame buffer)))
             = (of_nat word_count, of_nat (word_count * 4)))"
proof -
  have wc: "word_count < 2 ^ 24"
    using assms by simp
  let ?h = "encode_header word_count"
  have hl: "length ?h = (if word_count < 0x7f then 1 else 4)"
    by (simp add: encode_header_def)
  have size: "unat (tcpPacketSize (?h @ others)) = length ?h + word_count * 4" for others
    using tcpPacketSize_encode [OF wc, of others] by simp
  have size4: "unat (tcpPacketSize (take 4 (?h @ others))) = length ?h + word_count * 4" for others
    unfolding take4_encode by (rule size)
  have long: "\<not> word_count < 0x7f \<longrightarrow>
      ?h ! 0 = 0x7f
      \<and> uint (?h ! 1) + 256 * uint (?h ! 2) + 65536 * uint (?h ! 3) = int word_count"
  proof (intro impI)
    assume "\<not> word_count < 0x7f"
    then have h: "?h = [0x7f, of_nat word_count, of_nat (word_count div 256),
        of_nat (word_count div 65536)]"
      by (simp add: encode_header_def)
    have "declared_word_count (?h @ []) = int word_count"
      by (rule declared_word_count_encode [OF wc])
    then show "?h ! 0 = 0x7f
        \<and> uint (?h ! 1) + 256 * uint (?h ! 2) + 65536 * uint (?h ! 3) = int word_count"
      unfolding h by (simp add: declared_word_count_def)
  qed
  have decode: "\<forall>e payload. 1 \<le> word_count \<and> length payload = word_count * 4
         \<and> length ?h + word_count * 4 \<le> unat (MTPPacketSizeMax e)
         \<and> unat (MTPPacketSizeMax e) < 2 ^ 31 \<longrightarrow>
       handleResponse e (?h @ payload) = primes_of_bytes payload
       \<and> length (handleResponse e (?h @ payload)) = word_count"
  proof (intro allI impI)
    fix e :: env and payload :: "byte list"
    assume a: "1 \<le> word_count \<and> length payload = word_count * 4
         \<and> length ?h + word_count * 4 \<le> unat (MTPPacketSizeMax e)
         \<and> unat (MTPPacketSizeMax e) < 2 ^ 31"
    have "handleResponse e (?h @ payload) = primes_of_bytes payload"
      using a by (intro handleResponse_encode [OF wc]) simp_all
    moreover have "length (primes_of_bytes payload) = word_count"
      using a by (simp add: length_primes_of_bytes)
    ultimately show "handleResponse e (?h @ payload) = primes_of_bytes payload
       \<and> length (handleResponse e (?h @ payload)) = word_count"
      by simp
  qed
  have sent: "\<forall>buffer. length buffer = word_count + 3 \<longrightarrow>
      tcpFrame buffer = ?h @ bytes_of_primes (take word_count (drop 2 buffer))
      \<and> length (tcpFrame buffer) = length ?h + word_count * 4
      \<and> unat (tcpPacketSize (tcpFrame buffer)) = length (tcpFrame buffer)
      \<and> unat (tcpPacketSize (take 4 (tcpFrame buffer))) = length (tcpFrame buffer)
      \<and> responseSize (tcpFrame buffer) (of_nat (length (tcpFrame buffer)))
          = (of_nat word_count, of_nat (word_count * 4))"
  proof (intro allI impI)
    fix buffer :: mtpBuffer
    assume b: "length buffer = word_count + 3"
    let ?payload = "bytes_of_primes (take word_count (drop 2 buffer))"
    have frame: "tcpFrame buffer = ?h @ ?payload"
      using b wc by (rule tcpFrame_eq)
    have len: "length (tcpFrame buffer) = length ?h + word_count * 4"
      using b by (simp add: frame length_bytes_of_primes)
    have "(of_nat (length (tcpFrame buffer)) :: uint32) = of_nat (word_count * 4) + of_nat (length ?h)"
      unfolding len by simp
    then have "(of_nat (length (tcpFrame buffer)) - of_nat (length ?h) :: uint32)
        = of_nat (word_count * 4)"
      by simp
    then have r: "responseSize (tcpFrame buffer) (of_nat (length (tcpFrame buffer)))
        = (of_nat word_count, of_nat (word_count * 4))"
      using responseSize_encode [OF wc, of ?payload "of_nat (length (tcpFrame buffer))"]
      by (simp only: frame [symmetric])
    have s1: "unat (tcpPacketSize (tcpFrame buffer)) = length (tcpFrame buffer)"
      unfolding len unfolding frame by (rule size)
    have s4: "unat (tcpPacketSize (take 4 (tcpFrame buffer))) = length (tcpFrame buffer)"
      unfolding len unfolding frame by (rule size4)
    show "tcpFrame buffer = ?h @ ?payload
      \<and> length (tcpFrame buffer) = length ?h + word_count * 4
      \<and> unat (tcpPacketSize (tcpFrame buffer)) = length (tcpFrame buffer)
      \<and> unat (tcpPacketSize (take 4 (tcpFrame buffer))) = length (tcpFrame buffer)
      \<and> responseSize (tcpFrame buffer) (of_nat (length (tcpFrame buffer)))
          = (of_nat word_count, of_nat (word_count * 4))"
      by (intro conjI frame len s1 s4 r)
  qed
  have one: "(length ?h = 1) = (word_count < 0x7f)" and four: "(length ?h = 4) = (\<not> word_count < 0x7f)"
    by (simp_all add: hl)
  show ?thesis
    by (intro conjI size size4 responseSize_encode [OF wc] size_word(2) [OF wc]
        header_length_encode [OF wc] declared_word_count_encode [OF wc] one four long decode sent)
qed

theorem header_round_trip_witness:
  "(2 :: nat) < 0xFFFFFF
   \<and> encode_header 2 = [2]
   \<and> unat (tcpPacketSize (encode_header 2 @ [1, 1, 1, 1, 2, 2, 2, 2])) = 9
   \<and> unat (tcpPacketSize (take 4 (encode_header 2 @ [1, 1, 1, 1, 2, 2, 2, 2]))) = 9
   \<and> responseSize (encode_header 2 @ [1, 1, 1, 1, 2, 2, 2, 2]) 9 = (2, 8)
   \<and> handleResponse plain_env (encode_header 2 @ [1, 1, 1, 1, 2, 2, 2, 2])
       = [0x01010101, 0x02020202]
   \<and> length [9, 9, 5, 6, 9 :: mtpPrime] = 2 + 3
   \<and> tcpFrame [9, 9, 5, 6, 9] = [2, 5, 0, 0, 0, 6, 0, 0, 0]
   \<and> (200 :: nat) < 0xFFFFFF \<and> \<not> (200 :: nat) < 0x7f
   \<and> encode_header 200 = [0x7f, 200, 0, 0]
   \<and> unat (tcpPacketSize (take 4 (encode_header 200 @ [1, 2, 3]))) = 804
   \<and> uint (encode_header 200 ! 1) + 256 * uint (encode_header 200 ! 2)
       + 65536 * uint (encode_header 200 ! 3) = 200
   \<and> length (replicate 203 (0 :: mtpPrime)) = 200 + 3
   \<and> unat (tcpPacketSize (take 4 (tcpFrame (replicate 203 0)))) = 804"
proof -
  have short: "(2 :: nat) < 0xFFFFFF" and long: "(200 :: nat) < 0xFFFFFF" "\<not> (200 :: nat) < 0x7f"
    by simp_all
  have h2: "encode_header 2 = [2]" and h200: "encode_header 200 = [0x7f, 200, 0, 0]"
    by (simp_all add: encode_header_def)
  note s = header_round_trip [OF short, of "[1, 1, 1, 1, 2, 2, 2, 2]" 9]
  note l = header_round_trip [OF long(1), of "[1, 2, 3]" 0]
  have s1: "unat (tcpPacketSize (encode_header 2 @ [1, 1, 1, 1, 2, 2, 2, 2])) = 9"
    using s [THEN conjunct1] by (simp add: h2)
  have s2: "unat (tcpPacketSize (take 4 (encode_header 2 @ [1, 1, 1, 1, 2, 2, 2, 2]))) = 9"
    using s [THEN conjunct2, THEN conjunct1] by (simp add: h2)
  have s3: "responseSize (encode_header 2 @ [1, 1, 1, 1, 2, 2, 2, 2]) 9 = (2, 8)"
    using s [THEN conjunct2, THEN conjunct2, THEN conjunct1] by (simp add: h2)
  note rest = s [THEN conjunct2, THEN conjunct2, THEN conjunct2, THEN conjunct2, THEN conjunct2,
      THEN conjunct2, THEN conjunct2, THEN conjunct2, THEN conjunct2]
  have pre: "1 \<le> (2 :: nat) \<and> length [1, 1, 1, 1, 2, 2, 2, 2 :: byte] = 2 * 4
      \<and> length (encode_header 2) + 2 * 4 \<le> unat (MTPPacketSizeMax plain_env)
      \<and> unat (MTPPacketSizeMax plain_env) < 2 ^ 31"
    by (simp add: h2 plain_env_def)
  have "handleResponse plain_env (encode_header 2 @ [1, 1, 1, 1, 2, 2, 2, 2])
      = primes_of_bytes [1, 1, 1, 1, 2, 2, 2, 2]"
    using rest [THEN conjunct1, rule_format, OF pre] by (rule conjunct1)
  then have s4: "handleResponse plain_env (encode_header 2 @ [1, 1, 1, 1, 2, 2, 2, 2])
      = [0x01010101, 0x02020202]"
    by (simp add: prime_of_bytes_def)
  have b: "length [9, 9, 5, 6, 9 :: mtpPrime] = 2 + 3"
    by simp
  have "tcpFrame [9, 9, 5, 6, 9]
      = encode_header 2 @ bytes_of_primes (take 2 (drop 2 [9, 9, 5, 6, 9]))"
    using rest [THEN conjunct2, rule_format, OF b] by (rule conjunct1)
  then have s5: "tcpFrame [9, 9, 5, 6, 9] = [2, 5, 0, 0, 0, 6, 0, 0, 0]"
    by (simp add: h2 bytes_of_primes_def bytes_of_prime_def)
  have l1: "unat (tcpPacketSize (take 4 (encode_header 200 @ [1, 2, 3]))) = 804"
    using l [THEN conjunct2, THEN conjunct1] by (simp add: h200)
  note lrest = l [THEN conjunct2, THEN conjunct2, THEN conjunct2, THEN conjunct2, THEN conjunct2,
      THEN conjunct2, THEN conjunct2, THEN conjunct2]
  have l2: "uint (encode_header 200 ! 1) + 256 * uint (encode_header 200 ! 2)
       + 65536 * uint (encode_header 200 ! 3) = 200"
    using lrest [THEN conjunct1, rule_format, OF long(2)] by simp
  have lb: "length (replicate 203 (0 :: mtpPrime)) = 200 + 3"
    by simp
  note lsent = lrest [THEN conjunct2, THEN conjunct2, rule_format, OF lb]
  have "length (tcpFrame (replicate 203 0)) = 804"
    using lsent [THEN conjunct2, THEN conjunct1] by (simp add: h200)
  then have l3: "unat (tcpPacketSize (take 4 (tcpFrame (replicate 203 0)))) = 804"
    using lsent [THEN conjunct2, THEN conjunct2, THEN conjunct2, THEN conjunct1] by simp
  show ?thesis
    by (intro conjI short long h2 h200 s1 s2 s3 s4 b s5 l1 l2 lb l3)
qed

section \<open>Claims about decoding\<close>

lemma socketPacket_one_word:
  assumes "handleResponse e packet = [w]"
  shows "socketPacket e now packet c = (if status c = FinishedWork then (c, []) else (c, [EmitError w]))"
  using assms by (simp add: socketPacket_def)

lemma well_formed_length:
  assumes "length packet < 2 ^ 32" and "unat (MTPPacketSizeMax e) < 2 ^ 31"
    and "\<not> malformed_frame e packet"
  shows "int (length (handleResponse e packet)) = declared_word_count packet"
    and "4 * length (handleResponse e packet) = length packet - header_length packet"
proof -
  have hr: "handleResponse e packet = primes_of_bytes (drop (header_length packet) packet)"
    using handleResponse_eq [OF assms(1,2)] assms(3) by simp
  have h: "header_length packet \<le> 4"
    by (simp add: header_length_def)
  have L: "5 \<le> length packet"
    and d: "declared_word_count packet * 4 = int (length packet) - int (header_length packet)"
    using assms(3) by (simp_all add: malformed_frame_def)
  have "int (length packet - header_length packet) = declared_word_count packet * 4"
    using d h L by simp
  then have dv: "int ((length packet - header_length packet) div 4) = declared_word_count packet"
    by (simp add: zdiv_int)
  then show "int (length (handleResponse e packet)) = declared_word_count packet"
    by (simp add: hr length_primes_of_bytes)
  have "int (4 * ((length packet - header_length packet) div 4)) = int (length packet - header_length packet)"
    using dv d h L by simp
  then have "4 * ((length packet - header_length packet) div 4) = length packet - header_length packet"
    by (simp only: of_nat_eq_iff)
  then show "4 * length (handleResponse e packet) = length packet - header_length packet"
    by (simp add: hr length_primes_of_bytes)
qed


lemma four_bytes:
  assumes "length xs = 4"
  shows "xs = [xs ! 0, xs ! 1, xs ! 2, xs ! 3]"
  using assms by (auto simp add: list_eq_iff_nth_eq nth_Cons' numeral_eq_Suc less_Suc_eq)

text \<open>
  C10. A frame that decodes to exactly one payload word is never delivered as
  application data, whatever the status of the connection: the received queue stays as it
  is and no \<open>receivedData\<close> is emitted. Whenever the connection decodes the frame
  (in \<open>WaitingTcp\<close> and in \<open>UsingTcp\<close>; in \<open>FinishedWork\<close> \<open>socketPacket\<close>
  returns before decoding anything) the error event is raised with that word as its code.
\<close>

theorem one_word_frame_raises_error:
  assumes "length packet < 2 ^ 32" and "unat (MTPPacketSizeMax e) < 2 ^ 31"
    and "\<not> malformed_frame e packet" and "declared_word_count packet = 1"
  shows "handleResponse e packet =
      [prime_of_bytes (packet ! header_length packet) (packet ! (header_length packet + 1))
         (packet ! (header_length packet + 2)) (packet ! (header_length packet + 3))]
    \<and> receivedQueue (fst (socketPacket e now packet c)) = receivedQueue c
    \<and> EmitReceivedData \<notin> set (snd (socketPacket e now packet c))
    \<and> (status c \<noteq> FinishedWork \<longrightarrow>
         socketPacket e now packet c =
           (c, [EmitError (prime_of_bytes (packet ! header_length packet)
                  (packet ! (header_length packet + 1)) (packet ! (header_length packet + 2))
                  (packet ! (header_length packet + 3)))]))"
proof -
  let ?h = "header_length packet"
  let ?w = "prime_of_bytes (packet ! ?h) (packet ! (?h + 1)) (packet ! (?h + 2)) (packet ! (?h + 3))"
  have hr: "handleResponse e packet = primes_of_bytes (drop ?h packet)"
    using handleResponse_eq [OF assms(1,2)] assms(3) by simp
  have "4 * length (handleResponse e packet) = length packet - ?h"
    and "int (length (handleResponse e packet)) = 1"
    using well_formed_length [OF assms(1-3)] assms(4) by simp_all
  then have l4: "length (drop ?h packet) = 4"
    by simp
  then have hl: "?h + 4 = length packet"
    by simp
  have "drop ?h packet = [packet ! ?h, packet ! (?h + 1), packet ! (?h + 2), packet ! (?h + 3)]"
    using four_bytes [OF l4] hl by simp
  then have one: "handleResponse e packet = [?w]"
    by (simp add: hr)
  show ?thesis
    using socketPacket_one_word [OF one, of now c] one by simp
qed



theorem one_word_frame_raises_error_witness:
  "length [1, 0x6C, 0xFE, 0xFF, 0xFF :: byte] < 2 ^ 32 \<and> unat (MTPPacketSizeMax plain_env) < 2 ^ 31
   \<and> \<not> malformed_frame plain_env [1, 0x6C, 0xFE, 0xFF, 0xFF]
   \<and> declared_word_count [1, 0x6C, 0xFE, 0xFF, 0xFF] = 1
   \<and> status active \<noteq> FinishedWork \<and> status waiting \<noteq> FinishedWork
   \<and> socketPacket plain_env 0 [1, 0x6C, 0xFE, 0xFF, 0xFF] active = (active, [EmitError (- 404)])
   \<and> socketPacket plain_env 0 [1, 0x6C, 0xFE, 0xFF, 0xFF] waiting = (waiting, [EmitError (- 404)])"
proof -
  let ?p = "[1, 0x6C, 0xFE, 0xFF, 0xFF :: byte]"
  have len: "length ?p < 2 ^ 32"
    by simp
  have env: "unat (MTPPacketSizeMax plain_env) < 2 ^ 31"
    by (simp add: plain_env_def)
  have good: "\<not> malformed_frame plain_env ?p" and one: "declared_word_count ?p = 1"
    by (simp_all add: malformed_frame_def declared_word_count_def header_length_def plain_env_def)
  have st: "status active \<noteq> FinishedWork" "status waiting \<noteq> FinishedWork"
    by (simp_all add: active_def waiting_def newTCPConnection_def)
  have w: "prime_of_bytes (?p ! header_length ?p) (?p ! (header_length ?p + 1))
             (?p ! (header_length ?p + 2)) (?p ! (header_length ?p + 3)) = - 404"
    by (simp add: header_length_def prime_of_bytes_def)
  show ?thesis
    using one_word_frame_raises_error [OF len env good one, of 0 active]
      one_word_frame_raises_error [OF len env good one, of 0 waiting]
      env good one st
    unfolding w by simp
qed

section \<open>Claims about the probe reply\<close>

lemma waiting_fields:
  "status waiting = WaitingTcp" "tcpNonce waiting = 7" "tcpTimeout waiting = 2000"
  "tcpTimeoutTimer waiting = Some 2000" "receivedQueue waiting = []"
  by (simp_all add: waiting_def newTCPConnection_def kMinReceiveTimeout_def)

lemma plain_env_fields:
  "MTPShortBufferSize plain_env = 65535" "MTPPacketSizeMax plain_env = 0x4000000"
  "kErrorCodeOther plain_env = - 499" "aesCtrEncrypt plain_env datum key st = (datum, st)"
  "Sha256 plain_env datum = replicate 32 0"
  "preparePQFake plain_env nonce = [0, 0, ucast nonce, 0, 0]"
  "readPQFakeReply plain_env reply = (if length reply < 4 then None else Some (ucast (reply ! 0)))"
  by (simp_all add: plain_env_def)

lemma handleResponse_frameA: "handleResponse plain_env frameA = [0x01010101, 0x02020202]"
  by (simp add: handleResponse_def responseSize_def frameA_def plain_env_fields prime_of_bytes_def)

lemma handleResponse_replyFrame:
  "handleResponse plain_env (replyFrame v) = [ucast v, 0, 0, 0]"
  by (simp add: handleResponse_def responseSize_def replyFrame_def plain_env_fields prime_of_bytes_def)

text \<open>
  C1, as stated, fails: a probe reply that does not parse raises the error event, and
  any frame handed to the probe parser stops the retry timer first, also when the nonce
  does not match.
\<close>

theorem probe_failure_counterexample:
  "status waiting = WaitingTcp \<and> tcpTimeoutTimer waiting = Some 2000
   \<and> readPQFakeReply plain_env (handleResponse plain_env frameA) = None
   \<and> socketPacket plain_env 0 frameA waiting
       = (waiting\<lparr>tcpTimeoutTimer := None\<rparr>, [EmitError (- 499)])
   \<and> readPQFakeReply plain_env (handleResponse plain_env (replyFrame 8)) = Some 8
   \<and> tcpNonce waiting = 7
   \<and> socketPacket plain_env 0 (replyFrame 8) waiting = (waiting\<lparr>tcpTimeoutTimer := None\<rparr>, [])"
  by (simp add: socketPacket_def Let_def waiting_fields handleResponse_frameA
      handleResponse_replyFrame plain_env_fields)

text \<open>
  C1, amended. For every frame received in \<open>WaitingTcp\<close> that is handed to the probe
  parser (its decoded payload is not a single word): on a nonce mismatch no event is
  raised, no disconnect is issued and the reply is discarded; on a parse failure the
  error event \<open>kErrorCodeOther\<close> is raised and nothing else is done. In both cases the
  status stays \<open>WaitingTcp\<close> and the connection is as before, but for the retry
  timer, which has been stopped.
\<close>

theorem probe_failure_handling:
  assumes "status c = WaitingTcp" and "length (handleResponse e packet) \<noteq> 1"
  shows "(readPQFakeReply e (handleResponse e packet) = None \<longrightarrow>
           socketPacket e now packet c
             = (c\<lparr>tcpTimeoutTimer := None\<rparr>, [EmitError (kErrorCodeOther e)]))
       \<and> (\<forall>v. readPQFakeReply e (handleResponse e packet) = Some v \<and> v \<noteq> tcpNonce c \<longrightarrow>
           socketPacket e now packet c = (c\<lparr>tcpTimeoutTimer := None\<rparr>, []))"
  using assms by (simp add: socketPacket_def)

theorem probe_failure_handling_witness:
  "status waiting = WaitingTcp \<and> length (handleResponse plain_env frameA) \<noteq> 1
   \<and> length (handleResponse plain_env (replyFrame 8)) \<noteq> 1
   \<and> readPQFakeReply plain_env (handleResponse plain_env frameA) = None
   \<and> socketPacket plain_env 0 frameA waiting
       = (waiting\<lparr>tcpTimeoutTimer := None\<rparr>, [EmitError (kErrorCodeOther plain_env)])
   \<and> readPQFakeReply plain_env (handleResponse plain_env (replyFrame 8)) = Some 8
   \<and> 8 \<noteq> tcpNonce waiting
   \<and> socketPacket plain_env 0 (replyFrame 8) waiting = (waiting\<lparr>tcpTimeoutTimer := None\<rparr>, [])"
proof -
  have a: "length (handleResponse plain_env frameA) \<noteq> 1"
    and b: "length (handleResponse plain_env (replyFrame 8)) \<noteq> 1"
    by (simp_all add: handleResponse_frameA handleResponse_replyFrame)
  have pa: "readPQFakeReply plain_env (handleResponse plain_env frameA) = None"
    and pb: "readPQFakeReply plain_env (handleResponse plain_env (replyFrame 8)) = Some 8"
    by (simp_all add: handleResponse_frameA handleResponse_replyFrame plain_env_fields)
  show ?thesis
    using probe_failure_handling [OF waiting_fields(1) a, of 0]
      probe_failure_handling [OF waiting_fields(1) b, of 0] a b pa pb
    by (simp add: waiting_fields)
qed

section \<open>Claims about the nonce\<close>

lemma draw_nth: "k < 64 \<Longrightarrow> map (r i) [0..<64] ! k = r i k"
  by simp

lemma generateNonce_Some:
  assumes "generateNonce r i = Some nonce"
  shows "\<exists>j\<ge>i. nonce = map (r j) [0..<64] \<and> \<not> reservedNonce nonce"
  using assms
proof (induction rule: generateNonce.raw_induct [rotated 1, consumes 1])
  case (1 again r i nonce)
  show ?case
  proof (cases "reservedNonce (map (r i) [0..<64])")
    case True
    then have "again r (Suc i) = Some nonce"
      using 1(2) by (simp add: Let_def)
    then obtain j where "Suc i \<le> j" "nonce = map (r j) [0..<64]" "\<not> reservedNonce nonce"
      using 1(1) by blast
    then show ?thesis
      by (intro exI [of _ j]) simp
  next
    case False
    then show ?thesis
      using 1(2) by (intro exI [of _ i]) (auto simp add: Let_def)
  qed
qed

lemma generateNonce_returns:
  assumes "\<not> reservedNonce (map (r j) [0..<64])" and "i \<le> j"
  shows "\<exists>nonce. generateNonce r i = Some nonce"
  using assms
proof (induction "j - i" arbitrary: i)
  case 0
  then have "i = j" by simp
  then show ?case
    using 0 by (subst generateNonce.simps) (simp add: Let_def)
next
  case (Suc d)
  show ?case
  proof (cases "reservedNonce (map (r i) [0..<64])")
    case True
    have "\<exists>nonce. generateNonce r (Suc i) = Some nonce"
      using Suc by (intro Suc(1)) simp_all
    then show ?thesis
      using True by (subst generateNonce.simps) (simp add: Let_def)
  next
    case False
    then show ?thesis
      by (subst generateNonce.simps) (simp add: Let_def)
  qed
qed

lemma example_nonce: "generateNonce example_random 0 = Some (map (\<lambda>k. of_nat (k + 1)) [0..<64])"
proof -
  have r0: "reservedNonce (map (example_random 0) [0..<64])"
    by (simp add: reservedNonce_def example_random_def Let_def)
  have r1: "\<not> reservedNonce (map (example_random 1) [0..<64])"
    by (simp add: reservedNonce_def example_random_def prime_of_bytes_def Let_def)
  have "map (example_random 1) [0..<64] = map (\<lambda>k. of_nat (k + 1)) [0..<64]"
    by (simp add: example_random_def)
  then show ?thesis
    using r0 r1
    by (subst generateNonce.simps, simp add: Let_def del: upt_rec_numeral map_eq_conv)
       (subst generateNonce.simps, simp add: Let_def del: upt_rec_numeral map_eq_conv)
qed


lemma not_reserved_facts:
  assumes "\<not> reservedNonce nonce"
  shows "nonce ! 0 \<noteq> 0xEF"
    and "prime_of_bytes (nonce ! 0) (nonce ! 1) (nonce ! 2) (nonce ! 3) \<noteq> 0x44414548"
    and "prime_of_bytes (nonce ! 0) (nonce ! 1) (nonce ! 2) (nonce ! 3) \<noteq> 0x54534F50"
    and "prime_of_bytes (nonce ! 0) (nonce ! 1) (nonce ! 2) (nonce ! 3) \<noteq> 0x20544547"
    and "prime_of_bytes (nonce ! 0) (nonce ! 1) (nonce ! 2) (nonce ! 3) \<noteq> 0xEEEEEEEE"
    and "prime_of_bytes (nonce ! 4) (nonce ! 5) (nonce ! 6) (nonce ! 7) \<noteq> 0"
proof -
  show "nonce ! 0 \<noteq> 0xEF"
  proof
    assume "nonce ! 0 = 0xEF"
    then have "(ucast (nonce ! 0) :: uint32) = 0xEF"
      by simp
    then show False
      using assms by (simp add: reservedNonce_def Let_def)
  qed
qed (use assms in \<open>simp_all add: reservedNonce_def Let_def\<close>)

text \<open>
  C8, amended. Every nonce the rejection-sampling loop returns has 64 bytes, its first
  byte is not \<open>0xEF\<close>, its first 32-bit word is none of the reserved constants
  \<open>0x44414548\<close>, \<open>0x54534F50\<close>, \<open>0x20544547\<close> (listed twice in the source) and
  \<open>0xEEEEEEEE\<close>, and its second 32-bit word is not zero. The loop returns as soon as
  the random source offers a draw that is not reserved.
\<close>

theorem generated_nonce_not_reserved:
  "(generateNonce set_random i = Some nonce \<longrightarrow>
      length nonce = 64 \<and> nonce ! 0 \<noteq> 0xEF
      \<and> prime_of_bytes (nonce ! 0) (nonce ! 1) (nonce ! 2) (nonce ! 3) \<noteq> 0x44414548
      \<and> prime_of_bytes (nonce ! 0) (nonce ! 1) (nonce ! 2) (nonce ! 3) \<noteq> 0x54534F50
      \<and> prime_of_bytes (nonce ! 0) (nonce ! 1) (nonce ! 2) (nonce ! 3) \<noteq> 0x20544547
      \<and> prime_of_bytes (nonce ! 0) (nonce ! 1) (nonce ! 2) (nonce ! 3) \<noteq> 0xEEEEEEEE
      \<and> prime_of_bytes (nonce ! 4) (nonce ! 5) (nonce ! 6) (nonce ! 7) \<noteq> 0)
   \<and> ((\<exists>j. i \<le> j \<and> \<not> reservedNonce (map (set_random j) [0..<64])) \<longrightarrow>
        (\<exists>accepted. generateNonce set_random i = Some accepted))"
proof (intro conjI impI)
  assume "generateNonce set_random i = Some nonce"
  then obtain j where n: "nonce = map (set_random j) [0..<64]" and r: "\<not> reservedNonce nonce"
    using generateNonce_Some by blast
  show "length nonce = 64"
    by (simp add: n del: upt_rec_numeral)
  show "nonce ! 0 \<noteq> 0xEF"
    and "prime_of_bytes (nonce ! 0) (nonce ! 1) (nonce ! 2) (nonce ! 3) \<noteq> 0x44414548"
    and "prime_of_bytes (nonce ! 0) (nonce ! 1) (nonce ! 2) (nonce ! 3) \<noteq> 0x54534F50"
    and "prime_of_bytes (nonce ! 0) (nonce ! 1) (nonce ! 2) (nonce ! 3) \<noteq> 0x20544547"
    and "prime_of_bytes (nonce ! 0) (nonce ! 1) (nonce ! 2) (nonce ! 3) \<noteq> 0xEEEEEEEE"
    and "prime_of_bytes (nonce ! 4) (nonce ! 5) (nonce ! 6) (nonce ! 7) \<noteq> 0"
    using not_reserved_facts [OF r] by blast+
next
  assume "\<exists>j. i \<le> j \<and> \<not> reservedNonce (map (set_random j) [0..<64])"
  then show "\<exists>accepted. generateNonce set_random i = Some accepted"
    using generateNonce_returns by blast
qed

theorem generated_nonce_not_reserved_witness:
  "generateNonce example_random 0 = Some (map (\<lambda>k. of_nat (k + 1)) [0..<64])
   \<and> reservedNonce (map (example_random 0) [0..<64])
   \<and> \<not> reservedNonce (map (example_random 1) [0..<64])
   \<and> length (map (\<lambda>k. of_nat (k + 1) :: byte) [0..<64]) = 64
   \<and> prime_of_bytes 1 2 3 4 \<noteq> 0x44414548 \<and> prime_of_bytes 5 6 7 8 \<noteq> 0"
proof -
  have r0: "reservedNonce (map (example_random 0) [0..<64])"
    by (simp add: reservedNonce_def example_random_def Let_def)
  have r1: "\<not> reservedNonce (map (example_random 1) [0..<64])"
    by (simp add: reservedNonce_def example_random_def prime_of_bytes_def Let_def)
  have "map (\<lambda>k. of_nat (k + 1) :: byte) [0..<64] ! k = of_nat (k + 1)" if "k < 64" for k
    using that by simp
  then have "prime_of_bytes 1 2 3 4 \<noteq> 0x44414548 \<and> prime_of_bytes 5 6 7 8 \<noteq> 0"
    using generated_nonce_not_reserved
      [of example_random 0 "map (\<lambda>k. of_nat (k + 1)) [0..<64]", THEN conjunct1] example_nonce
    by (simp del: upt_rec_numeral)
  then show ?thesis
    using example_nonce r0 r1 by (simp del: upt_rec_numeral)
qed

text \<open>
  C8, as stated, fails: the second 32-bit word is compared with zero only, so the loop
  accepts a nonce whose second word is the reserved constant \<open>0x44414548\<close>.
\<close>

theorem second_word_reserved_counterexample:
  "generateNonce head_random 0 = Some (map (head_random 0) [0..<64])
   \<and> prime_of_bytes (map (head_random 0) [0..<64] ! 4) (map (head_random 0) [0..<64] ! 5)
        (map (head_random 0) [0..<64] ! 6) (map (head_random 0) [0..<64] ! 7) = 0x44414548"
proof -
  have "\<not> reservedNonce (map (head_random 0) [0..<64])"
    by (simp add: reservedNonce_def head_random_def prime_of_bytes_def Let_def)
  then have "generateNonce head_random 0 = Some (map (head_random 0) [0..<64])"
    by (subst generateNonce.simps) (simp add: Let_def del: upt_rec_numeral)
  moreover have "prime_of_bytes (map (head_random 0) [0..<64] ! 4) (map (head_random 0) [0..<64] ! 5)
        (map (head_random 0) [0..<64] ! 6) (map (head_random 0) [0..<64] ! 7) = 0x44414548"
    by (simp add: head_random_def prime_of_bytes_def)
  ultimately show ?thesis
    by simp
qed

section \<open>Claims about the retry timeout\<close>

lemma writeConnectionStartWith_fields:
  "tcpTimeout (fst (writeConnectionStartWith e nonce c)) = tcpTimeout c"
  "tcpTimeoutTimer (fst (writeConnectionStartWith e nonce c)) = tcpTimeoutTimer c"
  "status (fst (writeConnectionStartWith e nonce c)) = status c"
  by (simp_all add: writeConnectionStartWith_def Let_def split: prod.split)

lemma writeConnectionStartWith_result:
  assumes "writeConnectionStartWith e nonce c = (c1, effs)"
  shows "tcpTimeout c1 = tcpTimeout c \<and> tcpTimeoutTimer c1 = tcpTimeoutTimer c \<and> status c1 = status c"
  using writeConnectionStartWith_fields [of e nonce c] assms by simp

lemma sendData_fields:
  assumes "sendData e set_random buffer c = Some (c', effs)"
  shows "tcpTimeout c' = tcpTimeout c" "tcpTimeoutTimer c' = tcpTimeoutTimer c" "status c' = status c"
  using assms
  by (auto simp add: sendData_def tcpSend_def writeConnectionStart_def Let_def
      split: if_splits option.splits prod.splits dest: writeConnectionStartWith_result)

lemma onSocketConnected_fields:
  assumes "onSocketConnected e set_random now c = Some (c', effs)" and "status c = WaitingTcp"
  shows "tcpTimeout c' = \<bar>tcpTimeout c\<bar>" "tcpTimeoutTimer c' = Some \<bar>tcpTimeout c\<bar>"
    "status c' = WaitingTcp"
  using assms
    sendData_fields [of e set_random "preparePQFake e (tcpNonce c)"
      "c\<lparr>tcpTimeout := \<bar>tcpTimeout c\<bar>, tcpTimeoutTimer := Some \<bar>tcpTimeout c\<bar>, pingTime := now\<rparr>" c' effs]
  by (auto simp add: onSocketConnected_def Let_def abs_if split: if_splits)

lemma socketPacket_tcpTimeout: "tcpTimeout (fst (socketPacket e now packet c)) = tcpTimeout c"
  by (simp add: socketPacket_def Let_def split: option.split)

lemma socketPacket_timer:
  "tcpTimeoutTimer (fst (socketPacket e now packet c)) = None
   \<or> tcpTimeoutTimer (fst (socketPacket e now packet c)) = tcpTimeoutTimer c"
  by (simp add: socketPacket_def Let_def split: option.split)

lemma reachable_retry_ok: "reachable e c \<Longrightarrow> retry_ok c"
proof (induction rule: reachable.induct)
  case (created nonce)
  then show ?case
    by (simp add: retry_ok_def newTCPConnection_def kMinReceiveTimeout_def)
next
  case (connected c set_random now c' effs)
  show ?case
  proof (cases "status c = WaitingTcp")
    case True
    then show ?thesis
      using connected onSocketConnected_fields [OF connected(2) True]
      by (auto simp add: retry_ok_def)
  next
    case False
    then show ?thesis
      using connected by (simp add: onSocketConnected_def)
  qed
next
  case (timeout c t st)
  then show ?case
    by (auto simp add: retry_ok_def onTcpTimeoutTimer_def Let_def kMaxReceiveTimeout_def)
next
  case (disconnected c)
  then show ?case
    by (auto simp add: retry_ok_def onSocketDisconnected_def Let_def)
next
  case (packet c now packet)
  then show ?case
    using socketPacket_timer [of e now packet c]
    by (auto simp add: retry_ok_def socketPacket_tcpTimeout)
next
  case (sent c set_random buffer c' effs)
  then show ?case
    using sendData_fields [OF sent(2)] by (simp add: retry_ok_def)
next
  case (closed c)
  then show ?case
    by (simp add: retry_ok_def disconnectFromServer_def)
qed


lemma writeConnectionStartWith_nonce:
  "tcpNonce (fst (writeConnectionStartWith e nonce c)) = tcpNonce c"
  by (simp add: writeConnectionStartWith_def Let_def split: prod.split)

lemma sendData_nonce:
  assumes "sendData e set_random buffer c = Some (c', effs)"
  shows "tcpNonce c' = tcpNonce c"
  using assms writeConnectionStartWith_nonce
  by (auto simp add: sendData_def tcpSend_def writeConnectionStart_def Let_def
      split: if_splits option.splits prod.splits) (metis fst_conv)

lemma onSocketConnected_nonce:
  assumes "onSocketConnected e set_random now c = Some (c', effs)"
  shows "tcpNonce c' = tcpNonce c"
  using assms
    sendData_nonce [of e set_random "preparePQFake e (tcpNonce c)"
      "c\<lparr>tcpTimeout := \<bar>tcpTimeout c\<bar>, tcpTimeoutTimer := Some \<bar>tcpTimeout c\<bar>, pingTime := now\<rparr>" c' effs]
  by (auto simp add: onSocketConnected_def Let_def abs_if split: if_splits)

lemma onSocketConnected_returns:
  assumes "\<not> reservedNonce (map (set_random j) [0..<64])"
  shows "\<exists>c' effs. onSocketConnected e set_random now c = Some (c', effs)"
proof -
  obtain nonce where "generateNonce set_random 0 = Some nonce"
    using generateNonce_returns [of set_random j 0] assms by auto
  then show ?thesis
    by (simp add: onSocketConnected_def sendData_def tcpSend_def writeConnectionStart_def Let_def
        split: prod.split)
qed

lemma example_random_accepts: "\<not> reservedNonce (map (example_random 1) [0..<64])"
  by (simp add: reservedNonce_def example_random_def prime_of_bytes_def Let_def)

lemma connected_once_fields:
  "reachable plain_env connected_once" "status connected_once = WaitingTcp"
  "tcpTimeout connected_once = 2000" "tcpTimeoutTimer connected_once = Some 2000"
  "tcpNonce connected_once = 7"
proof -
  obtain c' effs where
    r: "onSocketConnected plain_env example_random 0 (newTCPConnection 7) = Some (c', effs)"
    using onSocketConnected_returns [of example_random 1 plain_env 0 "newTCPConnection 7"]
      example_random_accepts by blast
  then have c': "connected_once = c'"
    by (simp add: connected_once_def)
  have st: "status (newTCPConnection 7) = WaitingTcp" "tcpTimeout (newTCPConnection 7) = 2000"
    "tcpNonce (newTCPConnection 7) = 7"
    by (simp_all add: newTCPConnection_def kMinReceiveTimeout_def)
  show "reachable plain_env connected_once"
    unfolding c' using reachable.created r by (rule reachable.connected)
  show "status connected_once = WaitingTcp" "tcpTimeout connected_once = 2000"
    "tcpTimeoutTimer connected_once = Some 2000" "tcpNonce connected_once = 7"
    unfolding c' using onSocketConnected_fields [OF r st(1)] onSocketConnected_nonce [OF r] st
    by simp_all
qed

lemma retried_fields:
  "reachable plain_env retried" "status retried = WaitingTcp" "tcpTimeout retried = 4000"
  "tcpTimeoutTimer retried = Some 4000" "tcpNonce retried = 7"
proof -
  let ?fired = "fst (onTcpTimeoutTimer ConnectedState (connected_once\<lparr>tcpTimeoutTimer := None\<rparr>))"
  let ?down = "fst (onSocketDisconnected ?fired)"
  have fired: "reachable plain_env ?fired"
    using connected_once_fields(1,4) by (rule reachable.timeout)
  have ff: "status ?fired = WaitingTcp" "tcpTimeout ?fired = - 4000" "tcpNonce ?fired = 7"
    by (simp_all add: onTcpTimeoutTimer_def Let_def connected_once_fields kMaxReceiveTimeout_def)
  have down: "reachable plain_env ?down"
    using fired by (rule reachable.disconnected)
  have df: "status ?down = WaitingTcp" "tcpTimeout ?down = 4000" "tcpNonce ?down = 7"
    by (simp_all add: onSocketDisconnected_def Let_def ff)
  obtain c' effs where r: "onSocketConnected plain_env example_random 0 ?down = Some (c', effs)"
    using onSocketConnected_returns [of example_random 1 plain_env 0 ?down]
      example_random_accepts by blast
  then have c': "retried = c'"
    by (simp add: retried_def)
  show "reachable plain_env retried"
    unfolding c' using down r by (rule reachable.connected)
  show "status retried = WaitingTcp" "tcpTimeout retried = 4000"
    "tcpTimeoutTimer retried = Some 4000" "tcpNonce retried = 7"
    unfolding c' using onSocketConnected_fields [OF r df(1)] onSocketConnected_nonce [OF r] df
    by simp_all
qed

text \<open>
  C9, as stated, fails: after one expiry the timeout is 4000; the probe reply with the
  right nonce makes the connection active and leaves the timeout at 4000, not at the
  floor 2000.
\<close>

theorem retry_timeout_counterexample:
  "status retried = WaitingTcp \<and> tcpTimeout retried = 4000
   \<and> status (fst (socketPacket plain_env 0 (replyFrame 7) retried)) = UsingTcp
   \<and> snd (socketPacket plain_env 0 (replyFrame 7) retried) = [EmitConnected]
   \<and> tcpTimeout (fst (socketPacket plain_env 0 (replyFrame 7) retried)) = 4000
   \<and> kMinReceiveTimeout = 2000"
  by (simp add: socketPacket_def Let_def retried_fields handleResponse_replyFrame plain_env_fields
      kMinReceiveTimeout_def)

text \<open>
  C9, amended. In every state a connection can reach, the stored timeout has magnitude
  floor, twice or four times the floor, never above the ceiling, and is positive while
  the timer runs. When the timer fires while the connection still waits for the probe
  reply, the stored value becomes the negated doubled timeout, capped at the ceiling (the
  negative sign marks "expired"); the next socket event makes it positive again. A
  received packet, also the probe reply that makes the connection active, leaves the
  stored timeout as it is: the value is the floor only from construction.
\<close>

theorem retry_timeout_backoff:
  assumes "reachable e c"
  shows "(\<bar>tcpTimeout c\<bar> = kMinReceiveTimeout \<or> \<bar>tcpTimeout c\<bar> = 2 * kMinReceiveTimeout
          \<or> \<bar>tcpTimeout c\<bar> = 4 * kMinReceiveTimeout)
    \<and> \<bar>tcpTimeout c\<bar> \<le> kMaxReceiveTimeout
    \<and> (tcpTimeoutTimer c \<noteq> None \<longrightarrow> 0 < tcpTimeout c)
    \<and> (status c = WaitingTcp \<and> tcpTimeoutTimer c \<noteq> None \<longrightarrow>
         tcpTimeout (fst (onTcpTimeoutTimer st (c\<lparr>tcpTimeoutTimer := None\<rparr>)))
           = - min (2 * tcpTimeout c) kMaxReceiveTimeout)
    \<and> tcpTimeout (fst (onSocketDisconnected c)) = \<bar>tcpTimeout c\<bar>
    \<and> tcpTimeout (fst (socketPacket e now packet c)) = tcpTimeout c"
  using reachable_retry_ok [OF assms]
  by (auto simp add: retry_ok_def kMinReceiveTimeout_def kMaxReceiveTimeout_def
      onTcpTimeoutTimer_def onSocketDisconnected_def Let_def socketPacket_tcpTimeout)

theorem retry_timeout_backoff_witness:
  "reachable plain_env connected_once \<and> status connected_once = WaitingTcp
   \<and> tcpTimeoutTimer connected_once = Some 2000 \<and> tcpTimeout connected_once = 2000
   \<and> tcpTimeout (fst (onTcpTimeoutTimer ConnectedState (connected_once\<lparr>tcpTimeoutTimer := None\<rparr>)))
       = - 4000
   \<and> reachable plain_env retried \<and> status retried = WaitingTcp
   \<and> tcpTimeoutTimer retried = Some 4000 \<and> tcpTimeout retried = 4000
   \<and> tcpTimeout (fst (onTcpTimeoutTimer ConnectedState (retried\<lparr>tcpTimeoutTimer := None\<rparr>)))
       = - 8000"
  using retry_timeout_backoff [OF connected_once_fields(1), of ConnectedState 0 "[]"]
    retry_timeout_backoff [OF retried_fields(1), of ConnectedState 0 "[]"]
  by (simp add: connected_once_fields retried_fields kMaxReceiveTimeout_def)

section \<open>Claims about sending\<close>

lemma active_fields:
  "status active = UsingTcp" "packetNum active = 1" "receivedQueue active = []"
  "packetRead active = 0" "packetLeft active = 0" "readingToShort active" "currentPos active = 0"
  by (simp_all add: active_def newTCPConnection_def)

lemma tcpFrame_example: "tcpFrame [1, 2, 3, 4] = [1, 3, 0, 0, 0]"
  by (simp add: tcpFrame_def bytes_of_primes_def bytes_of_prime_def Let_def)

text \<open>
  C6, as stated, fails: for the buffer \<open>[1, 2, 3, 4]\<close> the frame written is the header
  \<open>1\<close> and the word \<open>3\<close>, not the buffer without its first three words (the word
  \<open>4\<close>); and a connection that has finished work raises no error for a buffer of two
  words.
\<close>

theorem send_payload_counterexample:
  "map_option snd (sendData plain_env example_random [1, 2, 3, 4] active)
     = Some [SockWrite [1, 3, 0, 0, 0]]
   \<and> encode_header 1 @ bytes_of_primes (drop 3 [1, 2, 3, 4]) = [1, 4, 0, 0, 0]
   \<and> sendData plain_env example_random [1, 2] (active\<lparr>status := FinishedWork\<rparr>)
     = Some (active\<lparr>status := FinishedWork\<rparr>, [])"
  by (simp add: sendData_def tcpSend_def Let_def active_fields plain_env_fields tcpFrame_example
      encode_header_def bytes_of_primes_def bytes_of_prime_def)

text \<open>
  C6, amended. A connection that has finished work ignores \<open>sendData\<close>: no event, no
  write, no change. On any other connection, \<open>sendData\<close> with a buffer of fewer than
  three words raises the error event and writes nothing. For a buffer of \<open>n \<ge> 3\<close>
  words (\<open>n - 3 < 2^24\<close>) the frame handed to the cipher is the encoded header for
  \<open>n - 3\<close> words, which decodes to \<open>n - 3\<close>, followed by the words \<open>2 .. n - 2\<close> of
  the buffer: the first two words and the last word are left out. That frame, encrypted,
  is the one write of the call, after the two writes of the handshake when it is the
  first packet.
\<close>

theorem send_frame_layout:
  "(status c = FinishedWork \<longrightarrow> sendData e set_random buffer c = Some (c, []))
   \<and> (status c \<noteq> FinishedWork \<longrightarrow>
       (length buffer < 3 \<longrightarrow>
           sendData e set_random buffer c = Some (c, [EmitError (kErrorCodeOther e)]))
     \<and> (3 \<le> length buffer \<and> length buffer - 3 < 2 ^ 24 \<longrightarrow>
         tcpFrame buffer
           = encode_header (length buffer - 3)
             @ bytes_of_primes (take (length buffer - 3) (drop 2 buffer))
         \<and> fst (responseSize (tcpFrame buffer) (of_nat (length (tcpFrame buffer))))
           = of_nat (length buffer - 3)
         \<and> (packetNum c \<noteq> 0 \<longrightarrow>
              map_option snd (sendData e set_random buffer c)
                = Some [SockWrite (fst (aesCtrEncrypt e (tcpFrame buffer) (sendKey c) (sendState c)))])
         \<and> (\<forall>c1 started. packetNum c = 0 \<and> writeConnectionStart e set_random c = Some (c1, started) \<longrightarrow>
              map_option snd (sendData e set_random buffer c)
                = Some (started
                    @ [SockWrite (fst (aesCtrEncrypt e (tcpFrame buffer) (sendKey c1) (sendState c1)))]))))"
proof (intro conjI impI allI)
  show "sendData e set_random buffer c = Some (c, [])" if "status c = FinishedWork"
    using that by (simp add: sendData_def)
next
  assume st: "status c \<noteq> FinishedWork"
  show "sendData e set_random buffer c = Some (c, [EmitError (kErrorCodeOther e)])"
    if "length buffer < 3"
    using that st by (simp add: sendData_def)
next
  assume st: "status c \<noteq> FinishedWork"
  assume b: "3 \<le> length buffer \<and> length buffer - 3 < 2 ^ 24"
  then have l: "length buffer = (length buffer - 3) + 3" and w: "length buffer - 3 < 2 ^ 24"
    by simp_all
  show frame: "tcpFrame buffer
           = encode_header (length buffer - 3)
             @ bytes_of_primes (take (length buffer - 3) (drop 2 buffer))"
    using l w by (rule tcpFrame_eq)
  show "fst (responseSize (tcpFrame buffer) (of_nat (length (tcpFrame buffer))))
           = of_nat (length buffer - 3)"
    unfolding frame using responseSize_encode [OF w] by simp
  show "map_option snd (sendData e set_random buffer c)
          = Some [SockWrite (fst (aesCtrEncrypt e (tcpFrame buffer) (sendKey c) (sendState c)))]"
    if "packetNum c \<noteq> 0"
    using that st b by (simp add: sendData_def tcpSend_def Let_def split: prod.split)
  show "map_option snd (sendData e set_random buffer c)
          = Some (started
              @ [SockWrite (fst (aesCtrEncrypt e (tcpFrame buffer) (sendKey c1) (sendState c1)))])"
    if "packetNum c = 0 \<and> writeConnectionStart e set_random c = Some (c1, started)" for c1 started
    using that st b by (simp add: sendData_def tcpSend_def Let_def split: prod.split)
qed

theorem send_frame_layout_witness:
  "status (active\<lparr>status := FinishedWork\<rparr>) = FinishedWork
   \<and> sendData plain_env example_random [1, 2, 3, 4] (active\<lparr>status := FinishedWork\<rparr>)
       = Some (active\<lparr>status := FinishedWork\<rparr>, [])
   \<and> status active \<noteq> FinishedWork \<and> packetNum active \<noteq> 0
   \<and> sendData plain_env example_random [1, 2] active = Some (active, [EmitError (- 499)])
   \<and> 3 \<le> length [1, 2, 3, 4 :: mtpPrime] \<and> length [1, 2, 3, 4 :: mtpPrime] - 3 < (2 :: nat) ^ 24
   \<and> tcpFrame [1, 2, 3, 4] = [1, 3, 0, 0, 0]
   \<and> map_option snd (sendData plain_env example_random [1, 2, 3, 4] active)
       = Some [SockWrite [1, 3, 0, 0, 0]]"
proof -
  have fin: "status (active\<lparr>status := FinishedWork\<rparr>) = FinishedWork"
    by simp
  have ignored: "sendData plain_env example_random [1, 2, 3, 4] (active\<lparr>status := FinishedWork\<rparr>)
       = Some (active\<lparr>status := FinishedWork\<rparr>, [])"
    using send_frame_layout [of "active\<lparr>status := FinishedWork\<rparr>" plain_env example_random
        "[1, 2, 3, 4]", THEN conjunct1, rule_format, OF fin] .
  have st: "status active \<noteq> FinishedWork" "packetNum active \<noteq> 0"
    by (simp_all add: active_fields)
  note t = send_frame_layout [of active plain_env example_random, THEN conjunct2, rule_format,
      OF st(1)]
  have short: "sendData plain_env example_random [1, 2] active = Some (active, [EmitError (- 499)])"
    using t [of "[1, 2]"] by (simp add: plain_env_fields)
  have pre: "3 \<le> length [1, 2, 3, 4 :: mtpPrime] \<and> length [1, 2, 3, 4 :: mtpPrime] - 3 < (2 :: nat) ^ 24"
    by simp
  note u = t [of "[1, 2, 3, 4]", THEN conjunct2, rule_format, OF pre]
  have "tcpFrame [1, 2, 3, 4]
      = encode_header (length [1, 2, 3, 4 :: mtpPrime] - 3)
        @ bytes_of_primes (take (length [1, 2, 3, 4 :: mtpPrime] - 3) (drop 2 [1, 2, 3, 4]))"
    by (rule u [THEN conjunct1])
  then have frame: "tcpFrame [1, 2, 3, 4] = [1, 3, 0, 0, 0]"
    by (simp add: encode_header_def bytes_of_primes_def bytes_of_prime_def)
  have "map_option snd (sendData plain_env example_random [1, 2, 3, 4] active)
      = Some [SockWrite (tcpFrame [1, 2, 3, 4])]"
    using u [THEN conjunct2, THEN conjunct2, THEN conjunct1] st by (simp add: plain_env_fields)
  then have sent: "map_option snd (sendData plain_env example_random [1, 2, 3, 4] active)
      = Some [SockWrite [1, 3, 0, 0, 0]]"
    unfolding frame .
  show ?thesis
    using fin ignored st short frame sent by simp
qed

section \<open>Claims about the handshake\<close>

lemma nonce_marked:
  assumes "length nonce = 64"
  shows "nonce[56 := a, 57 := b, 58 := c, 59 := d, 60 := x, 61 := y]
      = take 56 nonce @ [a, b, c, d, x, y, nonce ! 62, nonce ! 63]"
proof (rule nth_equalityI)
  show "length (nonce[56 := a, 57 := b, 58 := c, 59 := d, 60 := x, 61 := y])
      = length (take 56 nonce @ [a, b, c, d, x, y, nonce ! 62, nonce ! 63])"
    using assms by simp
next
  fix i assume "i < length (nonce[56 := a, 57 := b, 58 := c, 59 := d, 60 := x, 61 := y])"
  then have i: "i < 64"
    using assms by simp
  then consider "i < 56" | "i = 56" | "i = 57" | "i = 58" | "i = 59" | "i = 60" | "i = 61"
    | "i = 62" | "i = 63"
    by linarith
  then show "nonce[56 := a, 57 := b, 58 := c, 59 := d, 60 := x, 61 := y] ! i
      = (take 56 nonce @ [a, b, c, d, x, y, nonce ! 62, nonce ! 63]) ! i"
    using assms by cases (simp_all add: nth_append)
qed

lemma middle_reversed:
  assumes "length nonce = 64"
  shows "take 32 (rev (take 48 (drop 8 nonce))) = take 32 (drop 8 (rev nonce))"
    and "take 16 (drop 32 (rev (take 48 (drop 8 nonce)))) = take 16 (drop 40 (rev nonce))"
proof -
  have "rev (take 48 (drop 8 nonce)) = drop 8 (rev (drop 8 nonce))"
    using assms by (simp add: rev_take)
  also have "rev (drop 8 nonce) = take 56 (rev nonce)"
    using assms by (simp add: rev_drop)
  finally have r: "rev (take 48 (drop 8 nonce)) = drop 8 (take 56 (rev nonce))" .
  have t: "drop 8 (take 56 (rev nonce)) = take 48 (drop 8 (rev nonce))"
    by (simp add: drop_take)
  show "take 32 (rev (take 48 (drop 8 nonce))) = take 32 (drop 8 (rev nonce))"
    unfolding r t by simp
  show "take 16 (drop 32 (rev (take 48 (drop 8 nonce)))) = take 16 (drop 40 (rev nonce))"
    unfolding r t by (simp add: drop_take)
qed

lemma bytes_copy_full: "length source = length destination \<Longrightarrow> bytes_copy destination source = source"
  by (simp add: bytes_copy_def)

lemma prepareKey_eq:
  assumes "length key = 32" and "length source = 32" and "\<And>payload. length (Sha256 e payload) = 32"
  shows "prepareKey e secret key source
      = (if length secret = 16 then Sha256 e (source @ secret)
         else if secret = [] then source else replicate 32 0)"
  using assms by (simp add: prepareKey_def bytes_copy_full)


lemma generated_length: "generateNonce set_random i = Some nonce \<Longrightarrow> length nonce = 64"
  using generateNonce_Some [of set_random i nonce] by (auto simp del: upt_rec_numeral)

text \<open>
  C2. The handshake writes twice. The first write is the first 56 bytes of the nonce, in
  the clear. Before any encryption the marker \<open>0xEFEFEFEF\<close> is stored at offset 56 of
  the buffer and the 16-bit datacenter id at offset 60 (bytes 62 and 63 stay random);
  then the send cipher runs over all 64 bytes, and the second write is what it left at
  offsets 56 and up: the last 8 bytes when the cipher keeps the length.
\<close>

theorem handshake_write:
  assumes "generateNonce set_random 0 = Some nonce"
  shows "let marked = take 56 nonce
                @ [0xEF, 0xEF, 0xEF, 0xEF, ucast (protocolDcId c), ucast (drop_bit 8 (protocolDcId c)),
                   nonce ! 62, nonce ! 63];
             key = prepareKey e (protocolSecret c) (sendKey c) (take 32 (drop 8 nonce));
             state = (sendState c)\<lparr>ivec := bytes_copy (ivec (sendState c)) (take 16 (drop 40 nonce))\<rparr>;
             encrypted = fst (aesCtrEncrypt e marked key state)
         in map_option snd (writeConnectionStart e set_random c)
              = Some [SockWrite (take 56 nonce), SockWrite (drop 56 encrypted)]
            \<and> length (take 56 nonce) = 56 \<and> length marked = 64
            \<and> take 56 marked = take 56 nonce
            \<and> length (drop 56 encrypted) = length encrypted - 56"
proof -
  have len: "length nonce = 64"
    using assms by (rule generated_length)
  show ?thesis
    using assms len nonce_marked [OF len]
    by (simp add: writeConnectionStart_def writeConnectionStartWith_def Let_def KeySize_def
        IvecSize_def split: prod.split)
qed

text \<open>
  C7. From the accepted nonce, the send key source is bytes \<open>[8, 40)\<close> and the send
  initialization vector bytes \<open>[40, 56)\<close>; the receive key source is bytes \<open>[8, 40)\<close>
  of the reversed nonce, which is the first 32 bytes of the reversed middle region
  \<open>nonce[8, 56)\<close>, and the receive initialization vector the remaining 16 bytes of that
  region. With a secret of 16 bytes each key is \<open>Sha256\<close> of key source and secret;
  with no secret it is the key source; with any other secret it is 32 zero bytes. (The
  key arrays have 32 bytes, the vectors 16, and the hash returns 32 bytes.)
\<close>

theorem key_derivation:
  assumes "generateNonce set_random 0 = Some nonce"
    and "length (sendKey c) = KeySize" and "length (receiveKey c) = KeySize"
    and "length (ivec (sendState c)) = IvecSize" and "length (ivec (receiveState c)) = IvecSize"
    and "\<And>payload. length (Sha256 e payload) = 32"
  shows "let secret = protocolSecret c;
             derive = (\<lambda>source. if length secret = 16 then Sha256 e (source @ secret)
                                 else if secret = [] then source else replicate 32 0);
             c' = fst (writeConnectionStartWith e nonce c)
         in map_option fst (writeConnectionStart e set_random c) = Some c'
            \<and> sendKey c' = derive (take 32 (drop 8 nonce))
            \<and> receiveKey c' = derive (take 32 (drop 8 (rev nonce)))
            \<and> take 32 (drop 8 (rev nonce)) = take 32 (rev (take 48 (drop 8 nonce)))
            \<and> ivec (receiveState c') = take 16 (drop 40 (rev nonce))
            \<and> take 16 (drop 40 (rev nonce)) = drop 32 (rev (take 48 (drop 8 nonce)))
            \<and> sendState c'
                 = snd (aesCtrEncrypt e
                         (take 56 nonce
                          @ [0xEF, 0xEF, 0xEF, 0xEF, ucast (protocolDcId c),
                             ucast (drop_bit 8 (protocolDcId c)), nonce ! 62, nonce ! 63])
                         (derive (take 32 (drop 8 nonce)))
                         ((sendState c)\<lparr>ivec := take 16 (drop 40 nonce)\<rparr>))"
proof -
  have len: "length nonce = 64"
    using assms(1) by (rule generated_length)
  let ?secret = "protocolSecret c"
  let ?derive = "\<lambda>source. if length ?secret = 16 then Sha256 e (source @ ?secret)
                                 else if ?secret = [] then source else replicate 32 0"
  have sk: "prepareKey e ?secret (sendKey c) (take KeySize (drop 8 nonce)) = ?derive (take 32 (drop 8 nonce))"
    using assms(2,6) len by (subst prepareKey_eq) (simp_all add: KeySize_def)
  have rk: "prepareKey e ?secret (receiveKey c) (take KeySize (rev (take 48 (drop 8 nonce))))
      = ?derive (take 32 (drop 8 (rev nonce)))"
    using assms(3,6) len middle_reversed(1) [OF len]
    by (subst prepareKey_eq) (simp_all add: KeySize_def)
  have si: "bytes_copy (ivec (sendState c)) (take IvecSize (drop (8 + KeySize) nonce))
      = take 16 (drop 40 nonce)"
    using assms(4) len by (subst bytes_copy_full) (simp_all add: KeySize_def IvecSize_def)
  have ri: "bytes_copy (ivec (receiveState c)) (take IvecSize (drop KeySize (rev (take 48 (drop 8 nonce)))))
      = take 16 (drop 40 (rev nonce))"
    using assms(5) len middle_reversed(2) [OF len]
    by (subst bytes_copy_full) (simp_all add: KeySize_def IvecSize_def)
  have whole: "take 16 (drop 40 (rev nonce)) = drop 32 (rev (take 48 (drop 8 nonce)))"
    using middle_reversed(2) [OF len] len by simp
  have fields: "sendKey (fst (writeConnectionStartWith e nonce c)) = ?derive (take 32 (drop 8 nonce))"
    "receiveKey (fst (writeConnectionStartWith e nonce c)) = ?derive (take 32 (drop 8 (rev nonce)))"
    "ivec (receiveState (fst (writeConnectionStartWith e nonce c))) = take 16 (drop 40 (rev nonce))"
    "sendState (fst (writeConnectionStartWith e nonce c))
        = snd (aesCtrEncrypt e
                (take 56 nonce
                 @ [0xEF, 0xEF, 0xEF, 0xEF, ucast (protocolDcId c),
                    ucast (drop_bit 8 (protocolDcId c)), nonce ! 62, nonce ! 63])
                (?derive (take 32 (drop 8 nonce)))
                ((sendState c)\<lparr>ivec := take 16 (drop 40 nonce)\<rparr>))"
    unfolding writeConnectionStartWith_def Let_def sk rk si ri nonce_marked [OF len]
    by (simp_all split: prod.split)
  show ?thesis
    unfolding Let_def
    using fields whole middle_reversed(1) [OF len] assms(1)
    by (simp add: writeConnectionStart_def)
qed


theorem handshake_write_witness:
  "generateNonce example_random 0 = Some (map (\<lambda>k. of_nat (k + 1)) [0..<64])
   \<and> map_option snd
        (writeConnectionStart plain_env example_random ((newTCPConnection 7)\<lparr>protocolDcId := 0x0102\<rparr>))
       = Some [SockWrite (take 56 (map (\<lambda>k. of_nat (k + 1)) [0..<64])),
               SockWrite [0xEF, 0xEF, 0xEF, 0xEF, 2, 1, 63, 64]]"
proof -
  let ?N = "map (\<lambda>k. of_nat (k + 1) :: byte) [0..<64]"
  have n: "length ?N = 64" "?N ! 62 = 63" "?N ! 63 = 64"
    by (simp_all del: upt_rec_numeral)
  have d: "(ucast (0x0102 :: 16 word) :: byte) = 2" "(ucast (drop_bit 8 (0x0102 :: 16 word)) :: byte) = 1"
    by simp_all
  have "map_option snd
        (writeConnectionStart plain_env example_random ((newTCPConnection 7)\<lparr>protocolDcId := 0x0102\<rparr>))
       = Some [SockWrite (take 56 ?N),
               SockWrite (drop 56 (take 56 ?N @ [0xEF, 0xEF, 0xEF, 0xEF, 2, 1, 63, 64]))]"
    using handshake_write [OF example_nonce, of "(newTCPConnection 7)\<lparr>protocolDcId := 0x0102\<rparr>" plain_env]
    unfolding Let_def plain_env_fields fst_conv
    by (simp only: n d connection.simps) simp
  then show ?thesis
    using example_nonce n(1) by (simp del: upt_rec_numeral)
qed

theorem key_derivation_witness:
  "generateNonce example_random 0 = Some (map (\<lambda>k. of_nat (k + 1)) [0..<64])
   \<and> length (sendKey (newTCPConnection 7)) = KeySize
   \<and> length (ivec (receiveState (newTCPConnection 7))) = IvecSize
   \<and> length (Sha256 plain_env []) = 32
   \<and> sendKey (fst (writeConnectionStartWith plain_env (map (\<lambda>k. of_nat (k + 1)) [0..<64])
          (newTCPConnection 7)))
       = take 32 (drop 8 (map (\<lambda>k. of_nat (k + 1)) [0..<64]))
   \<and> receiveKey (fst (writeConnectionStartWith plain_env (map (\<lambda>k. of_nat (k + 1)) [0..<64])
          (newTCPConnection 7)))
       = take 32 (drop 8 (rev (map (\<lambda>k. of_nat (k + 1)) [0..<64])))
   \<and> sendKey (fst (writeConnectionStartWith plain_env (map (\<lambda>k. of_nat (k + 1)) [0..<64])
          ((newTCPConnection 7)\<lparr>protocolSecret := [1, 2, 3]\<rparr>)))
       = replicate 32 0
   \<and> receiveKey (fst (writeConnectionStartWith plain_env (map (\<lambda>k. of_nat (k + 1)) [0..<64])
          ((newTCPConnection 7)\<lparr>protocolSecret := replicate 16 5\<rparr>)))
       = Sha256 plain_env (take 32 (drop 8 (rev (map (\<lambda>k. of_nat (k + 1)) [0..<64]))) @ replicate 16 5)"
proof -
  let ?N = "map (\<lambda>k. of_nat (k + 1) :: byte) [0..<64]"
  have sizes: "length (sendKey ((newTCPConnection 7)\<lparr>protocolSecret := s\<rparr>)) = KeySize"
    "length (receiveKey ((newTCPConnection 7)\<lparr>protocolSecret := s\<rparr>)) = KeySize"
    "length (ivec (sendState ((newTCPConnection 7)\<lparr>protocolSecret := s\<rparr>))) = IvecSize"
    "length (ivec (receiveState ((newTCPConnection 7)\<lparr>protocolSecret := s\<rparr>))) = IvecSize" for s
    by (simp_all add: newTCPConnection_def)
  have same: "(newTCPConnection 7)\<lparr>protocolSecret := []\<rparr> = newTCPConnection 7"
    by (simp add: newTCPConnection_def)
  have sha: "length (Sha256 plain_env payload) = 32" for payload
    by (simp add: plain_env_fields)
  have sec: "protocolSecret ((newTCPConnection 7)\<lparr>protocolSecret := s\<rparr>) = s" for s
    by simp
  note k = key_derivation [OF example_nonce sizes sha, unfolded Let_def sec]
  have a: "sendKey (fst (writeConnectionStartWith plain_env ?N (newTCPConnection 7)))
       = take 32 (drop 8 ?N)"
    and b: "receiveKey (fst (writeConnectionStartWith plain_env ?N (newTCPConnection 7)))
       = take 32 (drop 8 (rev ?N))"
    using k [of "[]"] unfolding same by (simp_all del: upt_rec_numeral)
  have c: "sendKey (fst (writeConnectionStartWith plain_env ?N
          ((newTCPConnection 7)\<lparr>protocolSecret := [1, 2, 3]\<rparr>))) = replicate 32 0"
    using k [of "[1, 2, 3]"] by (simp del: upt_rec_numeral)
  have d: "receiveKey (fst (writeConnectionStartWith plain_env ?N
          ((newTCPConnection 7)\<lparr>protocolSecret := replicate 16 5\<rparr>)))
       = Sha256 plain_env (take 32 (drop 8 (rev ?N)) @ replicate 16 5)"
    using k [of "replicate 16 5"] by (simp del: upt_rec_numeral)
  show ?thesis
    using example_nonce sizes(1,4) [of "[]"] sha [of "[]"] a b c d unfolding same
    by (intro conjI)
qed

section \<open>Reassembly of the byte stream\<close>

text \<open>Reading back what was written into a buffer.\<close>

lemma read_bytes_length [simp]: "length (read_bytes mem pos n) = n"
  by (simp add: read_bytes_def)

lemma read_bytes_nth: "i < n \<Longrightarrow> read_bytes mem pos n ! i = mem (pos + i)"
  by (simp add: read_bytes_def)

lemma read_bytes_split:
  "read_bytes mem pos (a + b) = read_bytes mem pos a @ read_bytes mem (pos + a) b"
  by (rule nth_equalityI) (auto simp add: read_bytes_nth nth_append)

lemma read_bytes_take:
  assumes "read_bytes mem pos n = xs" and "k \<le> n"
  shows "read_bytes mem pos k = take k xs"
proof -
  have "read_bytes mem pos (k + (n - k)) = read_bytes mem pos k @ read_bytes mem (pos + k) (n - k)"
    by (rule read_bytes_split)
  then show ?thesis
    using assms by simp
qed

lemma read_bytes_drop:
  assumes "read_bytes mem pos n = xs" and "k \<le> n"
  shows "read_bytes mem (pos + k) (n - k) = drop k xs"
proof -
  have "read_bytes mem pos (k + (n - k)) = read_bytes mem pos k @ read_bytes mem (pos + k) (n - k)"
    by (rule read_bytes_split)
  then show ?thesis
    using assms by simp
qed

lemma read_written:
  assumes "n \<le> length bs"
  shows "read_bytes (write_bytes mem pos n bs) pos n = take n bs"
  using assms by (intro nth_equalityI) (auto simp add: read_bytes_nth write_bytes_def)

lemma read_before_written:
  assumes "pos' + k \<le> pos"
  shows "read_bytes (write_bytes mem pos n bs) pos' k = read_bytes mem pos' k"
  using assms by (intro nth_equalityI) (auto simp add: read_bytes_nth write_bytes_def)

text \<open>
  The size \<open>tcpPacketSize\<close> reads from the header of a well-formed frame is the length
  of the frame, and only the first four bytes matter.
\<close>

lemma tcpPacketSize_first4:
  assumes "4 \<le> length f"
  shows "tcpPacketSize (take 4 (f @ others)) = tcpPacketSize f"
proof -
  have n: "take 4 (f @ others) ! 0 = f ! 0" "take 4 (f @ others) ! 1 = f ! 1"
    "take 4 (f @ others) ! 2 = f ! 2" "take 4 (f @ others) ! 3 = f ! 3"
    using assms by (simp_all add: nth_append)
  show ?thesis
    unfolding tcpPacketSize_def n by (rule refl)
qed

lemma tcpPacketSize_well_formed:
  assumes "\<not> malformed_frame e f" and "unat (MTPPacketSizeMax e) < 2 ^ 31"
  shows "tcpPacketSize f = of_nat (length f)"
proof -
  have L5: "5 \<le> length f" and LM: "length f \<le> unat (MTPPacketSizeMax e)"
    and d: "declared_word_count f * 4 = int (length f) - int (header_length f)"
    using assms(1) by (simp_all add: malformed_frame_def)
  have L32: "length f < 2 ^ 32"
    using LM assms(2) by simp
  have target: "uint (of_nat (length f) :: uint32) = int (length f)"
    using L32 by (rule uint_of_nat_len)
  show ?thesis
  proof (cases "f ! 0 = 0x7f")
    case True
    define s :: uint32 where
      "s = push_bit 8 (push_bit 8 (ucast (f ! 3)) OR ucast (f ! 2)) OR ucast (f ! 1)"
    have us: "uint s = declared_word_count f"
      unfolding s_def uint_join24 declared_word_count_def using True by simp
    have eq: "tcpPacketSize f = push_bit 2 s + 4"
      unfolding s_def using True scast_small [of 127] sint_small [of 127]
      by (simp add: tcpPacketSize_def)
    have "uint (push_bit 2 s + 4) = (uint s * 4 + 4) mod 2 ^ 32"
      by (simp add: uint_word_ariths push_bit_eq_mult mod_simps)
    also have "uint s * 4 + 4 = int (length f)"
      using us d True by (simp add: header_length_def)
    also have "int (length f) mod 2 ^ 32 = int (length f)"
      using L32 by simp
    finally show ?thesis
      using target by (simp add: eq word_uint_eq_iff)
  next
    case False
    have dw: "sint (f ! 0) * 4 = int (length f) - 1"
      using d False by (simp add: declared_word_count_def header_length_def)
    then have pos: "0 < sint (f ! 0)"
      using L5 by simp
    have ne: "(scast (f ! 0) :: uint32) \<noteq> 0x7f"
      using False by (simp add: scast_eq_7f)
    have eq: "tcpPacketSize f = push_bit 2 (scast (f ! 0)) + 1"
      using pos ne by (simp add: tcpPacketSize_def)
    have "uint (scast (f ! 0) :: uint32) = sint (f ! 0)"
      using pos sint_lt [of "f ! 0"] by (simp add: uint_scast)
    then have "uint (push_bit 2 (scast (f ! 0)) + 1 :: uint32) = (sint (f ! 0) * 4 + 1) mod 2 ^ 32"
      by (simp add: uint_word_ariths push_bit_eq_mult mod_simps)
    also have "sint (f ! 0) * 4 + 1 = int (length f)"
      using dw by simp
    also have "int (length f) mod 2 ^ 32 = int (length f)"
      using L32 by simp
    finally show ?thesis
      using target by (simp add: eq word_uint_eq_iff)
  qed
qed

lemma scanned_same: "packetLeft c = 0 \<Longrightarrow> scanned c [] (packetRead c) = c"
  by (simp add: scanned_def)

lemma scanned_fields:
  "status (scanned c ps n) = status c" "receivedQueue (scanned c ps n) = receivedQueue c @ ps"
  "packetRead (scanned c ps n) = n" "packetLeft (scanned c ps n) = 0"
  "readingToShort (scanned c ps n) = readingToShort c" "currentPos (scanned c ps n) = currentPos c"
  "shortBuffer (scanned c ps n) = shortBuffer c" "longBuffer (scanned c ps n) = longBuffer c"
  "longBufferSize (scanned c ps n) = longBufferSize c"
  by (simp_all add: scanned_def)

lemma socketPacket_active:
  assumes "status c = UsingTcp" and "length (handleResponse e packet) \<noteq> 1"
  shows "socketPacket e now packet c
      = (c\<lparr>receivedQueue := receivedQueue c @ [handleResponse e packet]\<rparr>, [EmitReceivedData])"
  using assms by (simp add: socketPacket_def)

lemma deliverable_facts:
  assumes "deliverable e f" and "unat (MTPPacketSizeMax e) < 2 ^ 31"
  shows "5 \<le> length f" and "length f \<le> unat (MTPPacketSizeMax e)"
    and "tcpPacketSize f = of_nat (length f)" and "length (handleResponse e f) \<noteq> 1"
proof -
  have m: "\<not> malformed_frame e f" and d: "declared_word_count f \<noteq> 1"
    using assms(1) by (simp_all add: deliverable_def)
  show L5: "5 \<le> length f" and LM: "length f \<le> unat (MTPPacketSizeMax e)"
    using m by (simp_all add: malformed_frame_def)
  show "tcpPacketSize f = of_nat (length f)"
    using m assms(2) by (rule tcpPacketSize_well_formed)
  have "length f < 2 ^ 32"
    using LM assms(2) by simp
  then have "int (length (handleResponse e f)) = declared_word_count f"
    using assms(2) m by (rule well_formed_length)
  then show "length (handleResponse e f) \<noteq> 1"
    using d by auto
qed

text \<open>
  The scan loop on a buffer that holds frames followed by \<open>rest\<close>: each frame is
  queued, in order; the loop stops at fewer than four bytes, or with the error at a bad
  size field.
\<close>

lemma scan_step:
  assumes st: "status c = UsingTcp" and M: "unat (MTPPacketSizeMax e) < 2 ^ 31"
    and f: "deliverable e f"
    and pr: "unat (packetRead c) = length f + n"
    and pos: "unat (packetRead c) \<le> currentPos c"
    and buf: "read_bytes (currentBuffer c) (currentPos c - unat (packetRead c)) (unat (packetRead c))
        = f @ others"
  defines "c1 \<equiv> (scanned c [handleResponse e f] (packetRead c - of_nat (length f)))"
  shows "scanPackets e now c =
      (case scanPackets e now c1 of
         Inl (c2, effs) \<Rightarrow> Inl (c2, [EmitReceivedData] @ effs)
       | Inr (c2, move, effs) \<Rightarrow> Inr (c2, True, [EmitReceivedData] @ effs))"
    and "status c1 = UsingTcp" and "packetLeft c1 = 0"
    and "unat (packetRead c1) = n" and "unat (packetRead c1) \<le> currentPos c1"
    and "read_bytes (currentBuffer c1) (currentPos c1 - unat (packetRead c1)) (unat (packetRead c1))
        = others"
proof -
  note d = deliverable_facts [OF f M]
  let ?start = "currentPos c - unat (packetRead c)"
  let ?sz = "of_nat (length f) :: uint32"
  have L32: "length f < 2 ^ 32"
    using d(2) M by simp
  have usz: "unat ?sz = length f"
    using L32 by (simp add: unat_of_nat)
  have f1: "\<not> packetRead c < 4"
    using pr d(1) by (simp add: word_less_nat_alt)
  have "read_bytes (currentBuffer c) ?start 4 = take 4 (f @ others)"
    using buf by (rule read_bytes_take) (use pr d(1) in simp)
  then have f2: "tcpPacketSize (read_bytes (currentBuffer c) ?start 4) = ?sz"
    using tcpPacketSize_first4 [of f others] d(1,3) by simp
  have f3: "\<not> (?sz < 5 \<or> MTPPacketSizeMax e < ?sz)"
    using d(1,2) usz by (simp add: word_less_nat_alt)
  have f4: "?sz \<le> packetRead c"
    using pr usz by (simp add: word_le_nat_alt)
  have "read_bytes (currentBuffer c) ?start (length f) = take (length f) (f @ others)"
    using buf by (rule read_bytes_take) (use pr in simp)
  then have f5: "read_bytes (currentBuffer c) ?start (unat ?sz) = f"
    by (simp add: usz)
  have f6: "socketPacket e now f c
      = (c\<lparr>receivedQueue := receivedQueue c @ [handleResponse e f]\<rparr>, [EmitReceivedData])"
    using st d(4) by (rule socketPacket_active)
  show "scanPackets e now c =
      (case scanPackets e now c1 of
         Inl (c2, effs) \<Rightarrow> Inl (c2, [EmitReceivedData] @ effs)
       | Inr (c2, move, effs) \<Rightarrow> Inr (c2, True, [EmitReceivedData] @ effs))"
    by (subst scanPackets.simps)
       (simp add: Let_def f1 f2 f3 f4 f5 f6 c1_def scanned_def split: sum.split)
  show "status c1 = UsingTcp" "packetLeft c1 = 0"
    using st by (simp_all add: c1_def scanned_def)
  have "unat (packetRead c - ?sz) = unat (packetRead c) - unat ?sz"
    using f4 by (simp add: unat_sub)
  then show u1: "unat (packetRead c1) = n"
    using pr usz by (simp add: c1_def scanned_def)
  show "unat (packetRead c1) \<le> currentPos c1"
    using u1 pr pos by (simp add: c1_def scanned_def)
  have "read_bytes (currentBuffer c) (?start + length f) (unat (packetRead c) - length f)
      = drop (length f) (f @ others)"
    using buf by (rule read_bytes_drop) (use pr in simp)
  moreover have "currentPos c1 - unat (packetRead c1) = ?start + length f"
    using u1 pr pos by (simp add: c1_def scanned_def)
  moreover have "currentBuffer c1 = currentBuffer c"
    by (simp add: c1_def scanned_def currentBuffer_def)
  ultimately show "read_bytes (currentBuffer c1) (currentPos c1 - unat (packetRead c1))
      (unat (packetRead c1)) = others"
    using u1 pr by simp
qed

lemma scanned_twice: "scanned (scanned c ps n) qs k = scanned c (ps @ qs) k"
  by (simp add: scanned_def)

lemma scan_frames:
  assumes "status c = UsingTcp" and "unat (MTPPacketSizeMax e) < 2 ^ 31"
    and "\<forall>f \<in> set frames. deliverable e f"
    and "packetLeft c = 0"
    and "unat (packetRead c) = length (concat frames @ rest)"
    and "unat (packetRead c) \<le> currentPos c"
    and "read_bytes (currentBuffer c) (currentPos c - unat (packetRead c)) (unat (packetRead c))
        = concat frames @ rest"
  shows "(length rest < 4 \<longrightarrow>
      scanPackets e now c
        = Inr (scanned c (map (handleResponse e) frames) (of_nat (length rest)), frames \<noteq> [],
               replicate (length frames) EmitReceivedData))
    \<and> (4 \<le> length rest
       \<and> (tcpPacketSize (take 4 rest) < 5 \<or> MTPPacketSizeMax e < tcpPacketSize (take 4 rest)) \<longrightarrow>
      scanPackets e now c
        = Inl (scanned c (map (handleResponse e) frames) (of_nat (length rest)),
               replicate (length frames) EmitReceivedData @ [EmitError (kErrorCodeOther e)]))"
  using assms
proof (induction frames arbitrary: c)
  case Nil
  have n: "of_nat (length rest) = packetRead c"
  proof -
    have "unat (packetRead c) = length rest"
      using Nil(5) by simp
    then have "(of_nat (length rest) :: uint32) = of_nat (unat (packetRead c))"
      by simp
    then show ?thesis
      by simp
  qed
  have same: "scanned c (map (handleResponse e) []) (of_nat (length rest)) = c"
    using scanned_same [OF Nil(4)] n by simp
  have short: "scanPackets e now c = Inr (c, False, [])" if "length rest < 4"
    using that Nil(5) by (subst scanPackets.simps) (simp add: word_less_nat_alt)
  have bad: "scanPackets e now c = Inl (c, [EmitError (kErrorCodeOther e)])"
    if "4 \<le> length rest"
      and "tcpPacketSize (take 4 rest) < 5 \<or> MTPPacketSizeMax e < tcpPacketSize (take 4 rest)"
  proof -
    have "read_bytes (currentBuffer c) (currentPos c - unat (packetRead c)) (unat (packetRead c))
        = rest"
      using Nil(7) by simp
    then have "read_bytes (currentBuffer c) (currentPos c - unat (packetRead c)) 4 = take 4 rest"
      by (rule read_bytes_take) (use that Nil(5) in simp)
    then show ?thesis
      using that Nil(5) by (subst scanPackets.simps) (simp add: word_less_nat_alt Let_def)
  qed
  show ?case
    using short bad same by simp
next
  case (Cons f fs)
  define c1 where "c1 = scanned c [handleResponse e f] (packetRead c - of_nat (length f))"
  have f: "deliverable e f" and fs: "\<forall>f \<in> set fs. deliverable e f"
    using Cons(4) by simp_all
  have pr: "unat (packetRead c) = length f + length (concat fs @ rest)"
    using Cons(6) by simp
  have buf: "read_bytes (currentBuffer c) (currentPos c - unat (packetRead c)) (unat (packetRead c))
        = f @ (concat fs @ rest)"
    using Cons(8) by simp
  note step1 = scan_step(1) [OF Cons(2,3) f pr Cons(7) buf, where now = now, folded c1_def]
  note step = scan_step(2-6) [OF Cons(2,3) f pr Cons(7) buf, folded c1_def]
  note ih = Cons.IH [OF step(1) Cons(3) fs step(2,3,4,5)]
  have col: "scanned c1 (map (handleResponse e) fs) k
      = scanned c (map (handleResponse e) (f # fs)) k" for k
    by (simp add: c1_def scanned_twice)
  show ?case
    using ih unfolding step1 col by simp
qed

lemma storeBytes_fields:
  "status (storeBytes e bytes c) = status c"
  "receivedQueue (storeBytes e bytes c) = receivedQueue c"
  "packetLeft (storeBytes e bytes c) = packetLeft c"
  "packetRead (storeBytes e bytes c) = packetRead c + of_nat (length bytes)"
  "currentPos (storeBytes e bytes c) = currentPos c + length bytes"
  "readingToShort (storeBytes e bytes c) = readingToShort c"
  "longBufferSize (storeBytes e bytes c) = longBufferSize c"
  "currentBuffer (storeBytes e bytes c)
     = write_bytes (currentBuffer c) (currentPos c) (length bytes)
         (fst (aesCtrEncrypt e bytes (receiveKey c) (receiveState c)))"
  by (simp_all add: storeBytes_def Let_def currentBuffer_def)

lemma backToShort_fields:
  "receivedQueue (backToShort c) = receivedQueue c" "status (backToShort c) = status c"
  "packetRead (backToShort c) = packetRead c" "packetLeft (backToShort c) = packetLeft c"
  by (simp_all add: backToShort_def)

lemma readStep_scan:
  assumes "packetLeft c = 0"
    and "currentPos c + length bytes
          \<le> (if readingToShort c then MTPShortBufferSize e * 4 else longBufferSize c * 4)"
  shows "readStep e now bytes c =
    (case scanPackets e now (storeBytes e bytes c) of
       Inl stopped \<Rightarrow> Inl stopped
     | Inr (c3, move, effs) \<Rightarrow>
         if move then
           (if packetRead c3 = 0 then Inr (backToShort c3, effs)
            else if \<not> readingToShort c3 \<and> unat (packetRead c3) < MTPShortBufferSize e * 4 then
              Inr ((backToShort c3)
                     \<lparr>shortBuffer :=
                        write_bytes (shortBuffer c3) 0 (unat (packetRead c3))
                          (read_bytes (longBuffer c3)
                             (currentPos c3 - unat (packetRead c3)) (unat (packetRead c3))),
                      currentPos := unat (packetRead c3)\<rparr>, effs)
            else Inr (c3, effs))
         else Inr (c3, effs))"
  using assms by (simp add: readStep_def Let_def storeBytes_fields not_less [symmetric])

text \<open>One read that takes all the bytes the socket holds.\<close>

lemma loop_once:
  assumes "take (unat (toRead e c)) avail = avail" and "avail \<noteq> []"
  shows "socketReadLoop e now avail c =
    (case readStep e now avail (prepareBuffer e c) of
       Inl stopped \<Rightarrow> stopped
     | Inr (c2, effs) \<Rightarrow> (c2, effs))"
  using assms by (subst socketReadLoop.simps) (simp add: Let_def split: sum.split)

text \<open>
  A connection with an empty receive buffer that reads whole frames in one read queues
  all of them, in the order of their bytes.
\<close>

lemma single_read_delivers:
  assumes fresh: "status c = UsingTcp" "packetRead c = 0" "packetLeft c = 0" "readingToShort c"
      "currentPos c = 0"
    and limit: "unat (MTPPacketSizeMax e) < 2 ^ 31"
    and short: "MTPShortBufferSize e * 4 < 2 ^ 32"
    and frames: "\<forall>f \<in> set frames. deliverable e f" "frames \<noteq> []"
    and chunk: "length chunk = length (concat frames)" "length chunk \<le> MTPShortBufferSize e * 4"
    and plain: "fst (aesCtrEncrypt e chunk (receiveKey c) (receiveState c)) = concat frames"
  shows "socketReadLoop e now chunk c
     = (backToShort (scanned (storeBytes e chunk c) (map (handleResponse e) frames) 0),
        replicate (length frames) EmitReceivedData)"
proof -
  define c2 where "c2 = storeBytes e chunk c"
  have us: "unat (of_nat (MTPShortBufferSize e * 4) :: uint32) = MTPShortBufferSize e * 4"
    using short by (intro of_nat_inverse) simp_all
  have tr: "toRead e c = of_nat (MTPShortBufferSize e * 4)"
    by (simp add: toRead_def fresh)
  have pb: "prepareBuffer e c = c"
    unfolding prepareBuffer_def Let_def tr us by (simp add: fresh)
  have tk: "take (unat (toRead e c)) chunk = chunk"
    unfolding tr us using chunk(2) by simp
  have ul: "unat (of_nat (length chunk) :: uint32) = length chunk"
    using short chunk(2) by (intro of_nat_inverse) simp_all
  have ul': "unat (of_nat (length (concat frames)) :: uint32) = length (concat frames)"
    using ul chunk(1) by simp
  have f: "status c2 = UsingTcp" "packetLeft c2 = 0" "currentPos c2 = length chunk"
    "readingToShort c2" "packetRead c2 = of_nat (length chunk)"
    by (simp_all add: c2_def storeBytes_fields fresh)
  have "currentBuffer c2 = write_bytes (currentBuffer c) 0 (length chunk) (concat frames)"
    by (simp add: c2_def storeBytes_fields fresh plain)
  then have buf: "read_bytes (currentBuffer c2) (currentPos c2 - unat (packetRead c2))
      (unat (packetRead c2)) = concat frames @ []"
    using read_written [of "length chunk" "concat frames" "currentBuffer c" 0] chunk(1)
    by (simp add: f ul')
  have sc: "scanPackets e now c2
      = Inr (scanned c2 (map (handleResponse e) frames) 0, True,
             replicate (length frames) EmitReceivedData)"
    using scan_frames [of c2 e frames "[]" now, OF f(1) limit frames(1) f(2) _ _ buf, THEN conjunct1]
      frames(2) chunk(1)
    by (simp add: f ul')
  have rs: "readStep e now chunk c
      = Inr (backToShort (scanned c2 (map (handleResponse e) frames) 0),
             replicate (length frames) EmitReceivedData)"
    using chunk(2)
    by (subst readStep_scan) (simp_all add: fresh sc c2_def [symmetric] scanned_fields)
  have "concat frames \<noteq> []"
  proof -
    obtain f where "f \<in> set frames"
      using frames(2) by (cases frames) auto
    moreover from this have "f \<noteq> []"
      using frames(1) by (auto simp add: deliverable_def malformed_frame_def)
    ultimately show ?thesis
      by auto
  qed
  then have ne: "chunk \<noteq> []"
    using chunk(1) by auto
  show ?thesis
    using ne by (subst loop_once [OF tk]) (simp_all add: pb rs c2_def [symmetric])
qed

section \<open>Two frames, read whole and read in two parts\<close>

lemma deliverable_examples:
  "deliverable plain_env frameA" "deliverable plain_env frameB"
  "deliverable plain_env [2, 0x11, 0x11, 0x11, 0x11, 0x22, 0x22, 0x22, 0x22]"
  by (simp_all add: deliverable_def malformed_frame_def declared_word_count_def header_length_def
      plain_env_fields frameA_def frameB_def)

lemma handleResponse_examples:
  "handleResponse plain_env frameB = [0x11111111, 0x22222222, 0]"
  "handleResponse plain_env [2, 0x11, 0x11, 0x11, 0x11, 0x22, 0x22, 0x22, 0x22]
     = [0x11111111, 0x22222222]"
  by (simp_all add: handleResponse_def responseSize_def frameB_def plain_env_fields prime_of_bytes_def)

lemma plain_env_limit: "unat (MTPPacketSizeMax plain_env) < 2 ^ 31"
  by (simp add: plain_env_fields)

lemma frame_lengths: "length frameA = 9" "length frameB = 13" "take 1 frameB = [3]"
  "drop 1 frameB = [0x11, 0x11, 0x11, 0x11, 0x22, 0x22, 0x22, 0x22, 0, 0, 0, 0]"
  by (simp_all add: frameA_def frameB_def)

lemma active_buffers: "longBufferSize active = 0" "tcpTimeoutTimer active = None"
  by (simp_all add: active_def newTCPConnection_def)

lemma first_read:
  assumes "length rest < 4"
  shows "socketReadLoop plain_env 0 (frameA @ rest) active
      = (let c = scanned (storeBytes plain_env (frameA @ rest) active)
                   [handleResponse plain_env frameA] (of_nat (length rest))
         in (if rest = [] then backToShort c else c, [EmitReceivedData]))"
proof -
  let ?chunk = "frameA @ rest"
  define c2 where "c2 = storeBytes plain_env ?chunk active"
  have lc: "length ?chunk = 9 + length rest"
    by (simp add: frame_lengths)
  have tr: "toRead plain_env active = 262140"
    by (simp add: toRead_def active_fields plain_env_fields)
  have pb: "prepareBuffer plain_env active = active"
    by (simp add: prepareBuffer_def tr active_fields plain_env_fields)
  have tk: "take (unat (toRead plain_env active)) ?chunk = ?chunk"
    using assms by (simp add: tr frame_lengths)
  have pr: "packetRead c2 = of_nat (9 + length rest)"
    by (simp add: c2_def storeBytes_fields active_fields frame_lengths)
  have upr: "unat (packetRead c2) = 9 + length rest"
    using of_nat_inverse [of "9 + length rest" "packetRead c2"] pr assms by simp
  have f: "status c2 = UsingTcp" "packetLeft c2 = 0" "currentPos c2 = 9 + length rest"
    "readingToShort c2" "receivedQueue c2 = []"
    by (simp_all add: c2_def storeBytes_fields active_fields frame_lengths)
  have "currentBuffer c2 = write_bytes (currentBuffer active) 0 (length ?chunk) ?chunk"
    by (simp add: c2_def storeBytes_fields active_fields plain_env_fields)
  then have buf: "read_bytes (currentBuffer c2) (currentPos c2 - unat (packetRead c2))
      (unat (packetRead c2)) = concat [frameA] @ rest"
    using read_written [of "length ?chunk" ?chunk "currentBuffer active" 0]
    by (simp add: f upr frame_lengths)
  have "scanPackets plain_env 0 c2
      = Inr (scanned c2 (map (handleResponse plain_env) [frameA]) (of_nat (length rest)),
             [frameA] \<noteq> [], replicate (length [frameA]) EmitReceivedData)"
    using scan_frames [of c2 plain_env "[frameA]" rest 0, OF f(1) plain_env_limit _ f(2) _ _ buf]
      assms deliverable_examples(1) upr f(3)
    by (simp add: frame_lengths)
  then have sc: "scanPackets plain_env 0 c2
      = Inr (scanned c2 [handleResponse plain_env frameA] (of_nat (length rest)), True,
             [EmitReceivedData])"
    by simp
  have zero: "((of_nat (length rest) :: uint32) = 0) = (rest = [])"
  proof -
    have "unat (of_nat (length rest) :: uint32) = length rest"
      using assms by (intro of_nat_inverse) simp_all
    then show ?thesis
      by (metis length_0_conv unat_eq_0)
  qed
  have rs: "readStep plain_env 0 ?chunk active
      = Inr (if rest = [] then backToShort (scanned c2 [handleResponse plain_env frameA] (of_nat (length rest)))
             else scanned c2 [handleResponse plain_env frameA] (of_nat (length rest)),
             [EmitReceivedData])"
    using assms
    by (subst readStep_scan)
       (simp_all add: active_fields plain_env_fields frame_lengths sc c2_def [symmetric]
          scanned_fields f zero)
  have ne: "frameA \<noteq> []"
    using frame_lengths(1) by auto
  show ?thesis
    using ne by (subst loop_once [OF tk]) (simp_all add: Let_def pb rs c2_def [symmetric])
qed

lemma whole_read:
  "socketReadLoop plain_env 0 (frameA @ frameB) active
     = (backToShort (scanned (storeBytes plain_env (frameA @ frameB) active)
          [handleResponse plain_env frameA, handleResponse plain_env frameB] 0),
        [EmitReceivedData, EmitReceivedData])"
proof -
  have "socketReadLoop plain_env 0 (frameA @ frameB) active
     = (backToShort (scanned (storeBytes plain_env (frameA @ frameB) active)
          (map (handleResponse plain_env) [frameA, frameB]) 0),
        replicate (length [frameA, frameB]) EmitReceivedData)"
    by (rule single_read_delivers)
       (simp_all add: active_fields plain_env_fields plain_env_limit frame_lengths
          deliverable_examples)
  then show ?thesis
    by simp
qed

text \<open>The connection after the read that ended one byte into the second frame.\<close>

lemma second_read:
  fixes c3 :: connection
  assumes c3: "c3 = scanned (storeBytes plain_env (frameA @ [3]) active)
                      [handleResponse plain_env frameA] 1"
  shows "\<exists>c6. socketReadLoop plain_env 0
               [0x11, 0x11, 0x11, 0x11, 0x22, 0x22, 0x22, 0x22, 0, 0, 0, 0] c3
             = (c6, [EmitReceivedData, EmitError (- 499)])
           \<and> receivedQueue c6 = [[0x01010101, 0x02020202], [0x11111111, 0x22222222]]"
proof -
  define chunk :: "byte list"
    where "chunk = [0x11, 0x11, 0x11, 0x11, 0x22, 0x22, 0x22, 0x22, 0, 0, 0, 0]"
  let ?X = "[2, 0x11, 0x11, 0x11, 0x11, 0x22, 0x22, 0x22, 0x22] :: byte list"
  have lc: "length chunk = 12"
    by (simp add: chunk_def)
  have g: "status c3 = UsingTcp" "packetLeft c3 = 0" "packetRead c3 = 1" "currentPos c3 = 10"
    "readingToShort c3" "receivedQueue c3 = [[0x01010101, 0x02020202]]" "longBufferSize c3 = 0"
    by (simp_all add: c3 scanned_fields storeBytes_fields active_fields active_buffers
        frame_lengths handleResponse_frameA)
  have "currentBuffer c3 = currentBuffer (storeBytes plain_env (frameA @ [3]) active)"
    by (simp add: c3 currentBuffer_def scanned_fields)
  also have "\<dots> = write_bytes (currentBuffer active) 0 10 (frameA @ [3])"
    by (simp add: storeBytes_fields active_fields plain_env_fields frame_lengths)
  finally have sb: "shortBuffer c3 = write_bytes (currentBuffer active) 0 10 (frameA @ [3])"
    by (simp add: currentBuffer_def g)
  have "read_bytes (shortBuffer c3) 0 10 = frameA @ [3]"
    unfolding sb using read_written [of 10 "frameA @ [3]" "currentBuffer active" 0]
    by (simp add: frame_lengths)
  then have "read_bytes (shortBuffer c3) 0 1 = take 1 (frameA @ [3])"
    by (rule read_bytes_take) simp
  then have first: "read_bytes (shortBuffer c3) 0 1 = [2]"
    by (simp add: frameA_def)
  have tr: "toRead plain_env c3 = 262139"
    by (simp add: toRead_def g plain_env_fields)
  define c4 where "c4 = prepareBuffer plain_env c3"
  have sz: "unat (drop_bit 2 (1 + 262139 :: uint32) + 1) = 65536"
    by simp
  have h: "status c4 = UsingTcp" "packetLeft c4 = 0" "packetRead c4 = 1" "currentPos c4 = 1"
    "\<not> readingToShort c4" "receivedQueue c4 = [[0x01010101, 0x02020202]]"
    "longBufferSize c4 = 65536"
    by (simp_all add: c4_def prepareBuffer_def Let_def tr g plain_env_fields longBuffer_resize_def)
  have lb: "read_bytes (longBuffer c4) 0 1 = [2]"
    using read_written [of 1 "[2]" _ 0] first
    by (simp add: c4_def prepareBuffer_def Let_def tr g plain_env_fields)
  have tk: "take (unat (toRead plain_env c3)) chunk = chunk"
    by (simp add: tr lc)
  define c5 where "c5 = storeBytes plain_env chunk c4"
  have k: "status c5 = UsingTcp" "packetLeft c5 = 0" "packetRead c5 = 13" "currentPos c5 = 13"
    "\<not> readingToShort c5" "receivedQueue c5 = [[0x01010101, 0x02020202]]"
    by (simp_all add: c5_def storeBytes_fields h lc)
  have cb: "currentBuffer c5 = write_bytes (longBuffer c4) 1 12 chunk"
    by (simp add: c5_def storeBytes_fields lc h plain_env_fields) (simp add: currentBuffer_def h)
  have "read_bytes (currentBuffer c5) 0 13
      = read_bytes (currentBuffer c5) 0 1 @ read_bytes (currentBuffer c5) 1 12"
    using read_bytes_split [of "currentBuffer c5" 0 1 12] by simp
  also have "read_bytes (currentBuffer c5) 0 1 = [2]"
    unfolding cb using read_before_written [of 0 1 1 "longBuffer c4" 12 chunk] lb by simp
  also have "read_bytes (currentBuffer c5) 1 12 = chunk"
    unfolding cb using read_written [of 12 chunk "longBuffer c4" 1] lc by simp
  finally have "read_bytes (currentBuffer c5) 0 13 = concat [?X] @ [0, 0, 0, 0]"
    by (simp add: chunk_def)
  then have buf: "read_bytes (currentBuffer c5) (currentPos c5 - unat (packetRead c5))
      (unat (packetRead c5)) = concat [?X] @ [0, 0, 0, 0]"
    by (simp add: k)
  have small: "tcpPacketSize (take 4 [0, 0, 0, 0]) < 5"
    by (simp add: tcpPacketSize_def)
  have sc: "scanPackets plain_env 0 c5
      = Inl (scanned c5 [handleResponse plain_env ?X] 4, [EmitReceivedData, EmitError (- 499)])"
    using scan_frames [of c5 plain_env "[?X]" "[0, 0, 0, 0]" 0,
        OF k(1) plain_env_limit _ k(2) _ _ buf, THEN conjunct2]
      deliverable_examples(3) k(3,4) small
    by (simp add: plain_env_fields)
  have rs: "readStep plain_env 0 chunk c4
      = Inl (scanned c5 [handleResponse plain_env ?X] 4, [EmitReceivedData, EmitError (- 499)])"
    by (subst readStep_scan) (simp_all add: h lc sc c5_def [symmetric])
  have ne: "chunk \<noteq> []"
    using lc by auto
  have "socketReadLoop plain_env 0 chunk c3
      = (scanned c5 [handleResponse plain_env ?X] 4, [EmitReceivedData, EmitError (- 499)])"
    using ne by (subst loop_once [OF tk]) (simp_all add: c4_def [symmetric] rs)
  moreover have "receivedQueue (scanned c5 [handleResponse plain_env ?X] 4)
      = [[0x01010101, 0x02020202], [0x11111111, 0x22222222]]"
    by (simp add: scanned_fields k handleResponse_examples)
  ultimately show ?thesis
    unfolding chunk_def by blast
qed

text \<open>
  C5, reassembly does not depend on how the stream is cut into reads: the source does not
  satisfy it. \<open>frameA\<close> and \<open>frameB\<close> are well formed. Read in one piece, the active
  connection queues both payloads, in order. When the first read ends one byte into
  \<open>frameB\<close>, that byte stays in the short buffer at offset 9; the next read moves to the
  long buffer and copies \<open>packetRead\<close> bytes from the start of the short buffer (line 58)
  instead of from \<open>currentPos - packetRead\<close> (as line 114 does), so the header of
  \<open>frameA\<close> takes the place of the header of \<open>frameB\<close>: a payload of two words is
  queued instead of three, and the four bytes left raise the error.
\<close>

theorem chunked_read_diverges:
  "deliverable plain_env frameA \<and> deliverable plain_env frameB
   \<and> concat [frameA @ take 1 frameB, drop 1 frameB] = concat [frameA @ frameB]
   \<and> map (handleResponse plain_env) [frameA, frameB]
       = [[0x01010101, 0x02020202], [0x11111111, 0x22222222, 0]]
   \<and> receivedQueue (fst (socketReads plain_env 0 [frameA @ frameB] active))
       = [[0x01010101, 0x02020202], [0x11111111, 0x22222222, 0]]
   \<and> snd (socketReads plain_env 0 [frameA @ frameB] active)
       = [EmitReceivedData, EmitReceivedData]
   \<and> receivedQueue (fst (socketReads plain_env 0 [frameA @ take 1 frameB, drop 1 frameB] active))
       = [[0x01010101, 0x02020202], [0x11111111, 0x22222222]]
   \<and> snd (socketReads plain_env 0 [frameA @ take 1 frameB, drop 1 frameB] active)
       = [EmitReceivedData, EmitReceivedData, EmitError (- 499)]"
proof -
  have whole: "socketReads plain_env 0 [frameA @ frameB] active
      = (backToShort (scanned (storeBytes plain_env (frameA @ frameB) active)
           [handleResponse plain_env frameA, handleResponse plain_env frameB] 0),
         [EmitReceivedData, EmitReceivedData])"
    by (simp add: socketRead_def whole_read)
  define c3 where "c3 = scanned (storeBytes plain_env (frameA @ [3]) active)
      [handleResponse plain_env frameA] 1"
  have one: "socketReadLoop plain_env 0 (frameA @ [3]) active = (c3, [EmitReceivedData])"
    using first_read [of "[3]"] by (simp add: c3_def)
  obtain c6 where two: "socketReadLoop plain_env 0
        [0x11, 0x11, 0x11, 0x11, 0x22, 0x22, 0x22, 0x22, 0, 0, 0, 0] c3
      = (c6, [EmitReceivedData, EmitError (- 499)])"
    and queue: "receivedQueue c6 = [[0x01010101, 0x02020202], [0x11111111, 0x22222222]]"
    using second_read [OF c3_def] by blast
  have split: "socketReads plain_env 0 [frameA @ take 1 frameB, drop 1 frameB] active
      = (c6, [EmitReceivedData, EmitReceivedData, EmitError (- 499)])"
    unfolding frame_lengths(3,4) by (simp add: socketRead_def one two)
  have "concat [frameA @ take 1 frameB, drop 1 frameB] = concat [frameA @ frameB]"
    by simp
  moreover have "map (handleResponse plain_env) [frameA, frameB]
      = [[0x01010101, 0x02020202], [0x11111111, 0x22222222, 0]]"
    by (simp add: handleResponse_frameA handleResponse_examples)
  moreover have "receivedQueue (fst (socketReads plain_env 0 [frameA @ frameB] active))
      = [[0x01010101, 0x02020202], [0x11111111, 0x22222222, 0]]"
    unfolding whole
    by (simp add: backToShort_fields scanned_fields storeBytes_fields active_fields
        handleResponse_frameA handleResponse_examples)
  moreover have "snd (socketReads plain_env 0 [frameA @ frameB] active)
      = [EmitReceivedData, EmitReceivedData]"
    unfolding whole by simp
  moreover have "receivedQueue (fst (socketReads plain_env 0 [frameA @ take 1 frameB, drop 1 frameB] active))
      = [[0x01010101, 0x02020202], [0x11111111, 0x22222222]]"
    unfolding split by (simp add: queue)
  moreover have "snd (socketReads plain_env 0 [frameA @ take 1 frameB, drop 1 frameB] active)
      = [EmitReceivedData, EmitReceivedData, EmitError (- 499)]"
    unfolding split by simp
  ultimately show ?thesis
    using deliverable_examples(1,2) by (intro conjI)
qed

end
